theory Spec2Isabelle
  imports Main "HOL-Library.Word"
begin

unbundle bit_operations_syntax

section \<open>Binary codec: wire-level primitives\<close>

text \<open>
  Go byte slices are lists of 8-bit words; \<open>uint64\<close> is a 64-bit word; Go's \<open>int\<close>
  (64 bits on the supported platforms) is an \<open>int\<close> with the wrap-around written out
  wherever the source can overflow.
\<close>

type_synonym byte = "8 word"
type_synonym uint64 = "64 word"

text \<open>
  \<open>binary.Uvarint\<close> of the Go standard library, loop for loop: \<open>i\<close> is the index of the
  byte, \<open>x\<close> the accumulator, \<open>s\<close> the shift. The second component is the number of bytes
  read, \<open>0\<close> when the buffer ends inside the varint, negative on a 64-bit overflow.
\<close>

fun Uvarint_from :: "byte list \<Rightarrow> nat \<Rightarrow> uint64 \<Rightarrow> nat \<Rightarrow> uint64 \<times> int" where
  "Uvarint_from [] i x s = (0, 0)"
| "Uvarint_from (b # bs) i x s =
     (if i = 10 then (0, - (int i + 1))
      else if b < 0x80 then
        (if i = 9 \<and> b > 1 then (0, - (int i + 1))
         else (x OR push_bit s (ucast b), int i + 1))
      else Uvarint_from bs (i + 1) (x OR push_bit s (ucast (b AND 0x7f))) (s + 7))"

definition Uvarint :: "byte list \<Rightarrow> uint64 \<times> int" where
  "Uvarint buf = Uvarint_from buf 0 0 0"

text \<open>\<open>binary.LittleEndian.Uint64\<close> and \<open>Uint32\<close>: byte 0 is the least significant.\<close>

fun LittleEndian_Uint :: "byte list \<Rightarrow> 'a::len word" where
  "LittleEndian_Uint [] = 0"
| "LittleEndian_Uint (b # bs) = ucast b OR push_bit 8 (LittleEndian_Uint bs)"

text \<open>
  Go's slice expressions \<open>data[lo:]\<close> and \<open>data[lo:hi]\<close> panic unless
  \<open>0 \<le> lo \<le> hi \<le> len\<close>; \<open>None\<close> is the run-time panic.
\<close>

definition slice_from :: "'a list \<Rightarrow> int \<Rightarrow> 'a list option" where
  "slice_from data lo =
     (if 0 \<le> lo \<and> lo \<le> int (length data) then Some (drop (nat lo) data) else None)"

definition slice :: "'a list \<Rightarrow> int \<Rightarrow> int \<Rightarrow> 'a list option" where
  "slice data lo hi =
     (if 0 \<le> lo \<and> lo \<le> hi \<and> hi \<le> int (length data)
      then Some (take (nat (hi - lo)) (drop (nat lo) data)) else None)"

text \<open>Addition of two Go \<open>int\<close>s: the sum wraps around in 64-bit two's complement.\<close>

definition add_int :: "int \<Rightarrow> int \<Rightarrow> int" where
  "add_int a b = sint (word_of_int (a + b) :: 64 word)"

section \<open>Dynamically typed values\<close>

text \<open>
  The values an \<open>interface{}\<close> holds in the codec. A \<open>map[string]interface{}\<close> is an
  association list with distinct keys (the decoder's list keeps the order of first
  insertion); a \<open>float32\<close> is carried by its bits; a \<open>float64\<close> is carried by the value
  of Go's conversion \<open>int64(val)\<close>, the only way the encoder reads it.
\<close>

datatype val =
    VInt "64 word"
  | VInt32 "32 word"
  | VInt64 "64 word"
  | VUint64 "64 word"
  | VFloat32 "32 word"
  | VFloat64 "64 word"
  | VBool bool
  | VString "byte list"
  | VBytes "byte list"
  | VMap "(string \<times> val) list"
  | VSlice "val list"

type_synonym message = "(string \<times> val) list"

text \<open>Reading and writing \<open>result[key]\<close>.\<close>

fun map_set :: "('k \<times> 'v) list \<Rightarrow> 'k \<Rightarrow> 'v \<Rightarrow> ('k \<times> 'v) list" where
  "map_set [] k v = [(k, v)]"
| "map_set ((k', v') # m) k v = (if k' = k then (k, v) # m else (k', v') # map_set m k v)"

definition addToResult :: "message \<Rightarrow> string \<Rightarrow> val \<Rightarrow> message" where
  "addToResult result key value =
     (case map_of result key of
        Some existing \<Rightarrow>
          (case existing of
             VSlice v \<Rightarrow> map_set result key (VSlice (v @ [value]))
           | v \<Rightarrow> map_set result key (VSlice [v, value]))
      | None \<Rightarrow> map_set result key value)"

definition isLikelyString :: "byte list \<Rightarrow> bool" where
  "isLikelyString data =
     (if length data = 0 then True
      else list_all (\<lambda>b. \<not> (b < 0x20 \<and> b \<noteq> 0x0A \<and> b \<noteq> 0x0D \<and> b \<noteq> 0x09)) data)"

text \<open>\<open>fmt.Sprintf("%d", n)\<close>: the decimal rendering of an integer.\<close>

definition digit_char :: "int \<Rightarrow> char" where
  "digit_char n = char_of (48 + n)"

function decimal :: "int \<Rightarrow> string" where
  "decimal n =
     (if n < 10 then [digit_char n] else decimal (n div 10) @ [digit_char (n mod 10)])"
  by pat_completeness auto
termination
  by (relation "measure nat") auto

declare decimal.simps [simp del]

definition Sprintf_d :: "int \<Rightarrow> string" where
  "Sprintf_d n = (if n < 0 then CHR ''-'' # decimal (- n) else decimal n)"

section \<open>Schema-less decoder\<close>

datatype decode_error =
    FailedToReadTag int
  | FailedToReadVarint int
  | NotEnoughDataFixed64 int
  | FailedToReadLength int
  | NotEnoughDataBytes int
  | NotEnoughDataFixed32 int
  | UnknownWireType int int

text \<open>
  A call returns a value, returns an error, or panics (a slice expression out of range
  aborts the program: nothing in the repository recovers).
\<close>

datatype ('e, 'a) outcome = Ok 'a | Err 'e | Panic


lemma Uvarint_from_le:
  "Uvarint_from buf i x s = (v, n) \<Longrightarrow> n \<le> int i + int (length buf)"
  by (induction buf i x s rule: Uvarint_from.induct) (auto split: if_splits)

lemma Uvarint_le: "Uvarint buf = (v, n) \<Longrightarrow> n \<le> int (length buf)"
  using Uvarint_from_le [of buf 0 0 0 v n] by (simp add: Uvarint_def)


text \<open>
  \<open>DecodeMessage\<close>: the loop \<open>for pos < len(data)\<close> with its state (\<open>pos\<close>, \<open>result\<close>)
  as arguments. \<open>int(tag >> 3)\<close> and \<open>int(length)\<close> reinterpret the 64 bits as signed.
\<close>

function DecodeMessage_from :: "byte list \<Rightarrow> int \<Rightarrow> message \<Rightarrow> (decode_error, message) outcome" where
  "DecodeMessage_from data pos result =
     (if \<not> pos < int (length data) then Ok result
      else (case slice_from data pos of
        None \<Rightarrow> Panic
      | Some buf \<Rightarrow>
         (case Uvarint buf of (tag, n) \<Rightarrow>
           if n \<le> 0 then Err (FailedToReadTag pos)
           else
             let pos1 = pos + n;
                 fieldNum = sint (drop_bit 3 tag);
                 wireType = uint (tag AND 0x7);
                 key = Sprintf_d fieldNum
             in
             if wireType = 0 then
               (case slice_from data pos1 of
                  None \<Rightarrow> Panic
                | Some buf1 \<Rightarrow>
                   (case Uvarint buf1 of (v, n1) \<Rightarrow>
                      if n1 \<le> 0 then Err (FailedToReadVarint fieldNum)
                      else DecodeMessage_from data (pos1 + n1) (addToResult result key (VInt64 v))))
             else if wireType = 1 then
               (if pos1 + 8 > int (length data) then Err (NotEnoughDataFixed64 fieldNum)
                else (case slice data pos1 (pos1 + 8) of
                  None \<Rightarrow> Panic
                | Some b \<Rightarrow>
                    DecodeMessage_from data (pos1 + 8)
                      (addToResult result key (VUint64 (LittleEndian_Uint b)))))
             else if wireType = 2 then
               (case slice_from data pos1 of
                  None \<Rightarrow> Panic
                | Some buf1 \<Rightarrow>
                   (case Uvarint buf1 of (len, n1) \<Rightarrow>
                      if n1 \<le> 0 then Err (FailedToReadLength fieldNum)
                      else
                        let pos2 = pos1 + n1 in
                        if add_int pos2 (sint len) > int (length data)
                        then Err (NotEnoughDataBytes fieldNum)
                        else (case slice data pos2 (add_int pos2 (sint len)) of
                          None \<Rightarrow> Panic
                        | Some payload \<Rightarrow>
                           (case DecodeMessage_from payload 0 [] of
                              Panic \<Rightarrow> Panic
                            | Ok nested \<Rightarrow>
                                if length nested > 0
                                then DecodeMessage_from data (add_int pos2 (sint len))
                                       (addToResult result key (VMap nested))
                                else if isLikelyString payload
                                then DecodeMessage_from data (add_int pos2 (sint len))
                                       (addToResult result key (VString payload))
                                else DecodeMessage_from data (add_int pos2 (sint len))
                                       (addToResult result key (VBytes payload))
                            | Err e \<Rightarrow>
                                if isLikelyString payload
                                then DecodeMessage_from data (add_int pos2 (sint len))
                                       (addToResult result key (VString payload))
                                else DecodeMessage_from data (add_int pos2 (sint len))
                                       (addToResult result key (VBytes payload))))))
             else if wireType = 5 then
               (if pos1 + 4 > int (length data) then Err (NotEnoughDataFixed32 fieldNum)
                else (case slice data pos1 (pos1 + 4) of
                  None \<Rightarrow> Panic
                | Some b \<Rightarrow>
                    DecodeMessage_from data (pos1 + 4)
                      (addToResult result key (VFloat32 (LittleEndian_Uint b)))))
             else Err (UnknownWireType wireType fieldNum))))"
  by pat_completeness auto

termination
  apply (relation "measures [\<lambda>(d, p, r). length d, \<lambda>(d, p, r). nat (int (length d) - p)]")
   apply simp
  apply (auto simp: slice_from_def slice_def split: if_splits dest!: Uvarint_le)
  done

declare DecodeMessage_from.simps [simp del]

definition DecodeMessage :: "byte list \<Rightarrow> (decode_error, message) outcome" where
  "DecodeMessage data = DecodeMessage_from data 0 []"

section \<open>Schema-driven encoder\<close>

text \<open>
  \<open>binary.PutUvarint\<close> into a fresh buffer, as \<open>writeVarint\<close> uses it: seven bits per
  byte, least significant group first, the top bit set on every byte but the last.
\<close>

function PutUvarint :: "uint64 \<Rightarrow> byte list" where
  "PutUvarint x =
     (if x \<ge> 0x80 then (ucast x OR 0x80) # PutUvarint (drop_bit 7 x) else [ucast x])"
  by pat_completeness auto
termination
proof (relation "measure unat")
  show "wf (measure unat)" by simp
next
  fix x :: uint64
  assume "0x80 \<le> x"
  then have "128 \<le> unat x" by (simp add: word_le_nat_alt)
  moreover have "unat (drop_bit 7 x) = unat x div 128"
    using unat_drop_bit_eq [of 7 x] by (simp only: drop_bit_eq_div) simp
  ultimately show "(drop_bit 7 x, x) \<in> measure unat" by simp
qed

declare PutUvarint.simps [simp del]

definition writeVarint :: "uint64 \<Rightarrow> byte list" where
  "writeVarint v = PutUvarint v"

text \<open>
  \<open>writeTag\<close>: \<open>uint64(fieldNum<<3) | uint64(wireType)\<close>; the shift of the Go \<open>int\<close> wraps
  around, which \<open>word_of_int\<close> does.
\<close>

definition WireVarint :: int where "WireVarint = 0"
definition WireFixed64 :: int where "WireFixed64 = 1"
definition WireBytes :: int where "WireBytes = 2"
definition WireFixed32 :: int where "WireFixed32 = 5"

definition writeTag :: "int \<Rightarrow> int \<Rightarrow> byte list" where
  "writeTag fieldNum wireType =
     writeVarint (word_of_int (fieldNum * 8) OR word_of_int wireType)"

text \<open>
  \<open>FieldType\<close> is a Go string type: the five declared constants, or any other string.
  A \<open>MessageDef\<close> is \<open>None\<close> for a nil map.
\<close>

datatype FieldType = TypeInt | TypeString | TypeBytes | TypeMessage | TypeBool | TypeOther string

datatype FieldDef =
  FieldDef (Type: FieldType) (Repeated: bool) (MessageDef: "(string \<times> FieldDef) list option")

type_synonym MessageType = "(string \<times> FieldDef) list"

datatype encode_error =
    InvalidFieldNumber string
  | CannotConvertToInt64
  | ExpectedBool int
  | ExpectedString int
  | ExpectedBytes int
  | ExpectedMessage int
  | InField int encode_error
  | UnknownType int
  | UnsupportedAutoType int

text \<open>
  \<open>strconv.Atoi\<close>: an optional sign, then one or more decimal digits. The value comes
  with \<open>True\<close> when there is an error: \<open>0\<close> on a syntax error, the nearest 64-bit bound
  when the number is out of range.
\<close>

definition is_digit :: "char \<Rightarrow> bool" where
  "is_digit c = (48 \<le> (of_char c :: int) \<and> (of_char c :: int) \<le> 57)"

definition digits_value :: "string \<Rightarrow> int" where
  "digits_value ds = foldl (\<lambda>n c. n * 10 + (of_char c - 48)) 0 ds"

definition Atoi :: "string \<Rightarrow> int \<times> bool" where
  "Atoi s =
     (let neg = (s \<noteq> [] \<and> hd s = CHR ''-'');
          ds = (if s \<noteq> [] \<and> (hd s = CHR ''-'' \<or> hd s = CHR ''+'') then tl s else s)
      in if ds = [] \<or> \<not> list_all is_digit ds then (0, True)
         else let n = digits_value ds in
           if neg then (if n > 2 ^ 63 then (- (2 ^ 63), True) else (- n, False))
           else (if n \<ge> 2 ^ 63 then (2 ^ 63 - 1, True) else (n, False)))"

text \<open>\<open>toInt64\<close>; the result is then written as \<open>uint64(v)\<close>, the same 64 bits.\<close>

fun toInt64 :: "val \<Rightarrow> uint64 option" where
  "toInt64 (VInt v) = Some v"
| "toInt64 (VInt32 v) = Some (scast v)"
| "toInt64 (VInt64 v) = Some v"
| "toInt64 (VUint64 v) = Some v"
| "toInt64 (VFloat64 v) = Some v"
| "toInt64 (VBool v) = Some (if v then 1 else 0)"
| "toInt64 _ = None"

text \<open>A length-delimited field: tag, varint length, payload.\<close>

definition writeBytesField :: "int \<Rightarrow> byte list \<Rightarrow> byte list" where
  "writeBytesField fieldNum b =
     writeTag fieldNum WireBytes @ writeVarint (of_nat (length b)) @ b"

definition writeVarintField :: "int \<Rightarrow> uint64 \<Rightarrow> byte list" where
  "writeVarintField fieldNum v = writeTag fieldNum WireVarint @ writeVarint v"

text \<open>
  The order in which \<open>encodeMessage\<close> visits the fields: the entries sorted by the
  \<open>Atoi\<close> value of the key, errors ignored as the comparison function does. Go's map
  iteration and \<open>sort.Slice\<close> fix no order among keys of equal value; the model keeps
  the order of the list there.
\<close>

definition sorted_entries :: "message \<Rightarrow> message" where
  "sorted_entries msg = sort_key (\<lambda>kv. fst (Atoi (fst kv))) msg"

text \<open>The measure for the termination of the encoder: the size of the value, at least 1.\<close>

definition sz :: "val \<Rightarrow> nat" where
  "sz v = size v + 1"

lemma sum_insort_key:
  "sum_list (map f (insort_key k x xs)) = (f x :: nat) + sum_list (map f xs)"
  by (induction xs) auto

lemma sum_sort_key: "sum_list (map f (sort_key k xs)) = sum_list (map (f :: 'a \<Rightarrow> nat) xs)"
  by (induction xs) (auto simp: sum_insort_key)

lemma sum_sorted_entries:
  "sum_list (map (\<lambda>kv. sz (snd kv)) (sorted_entries m)) = sum_list (map (\<lambda>kv. sz (snd kv)) m)"
  by (simp add: sorted_entries_def sum_sort_key)

lemma sz_VSlice: "sum_list (map sz items) < sz (VSlice items)"
  by (induction items) (auto simp: sz_def)

lemma sz_VMap: "sum_list (map (\<lambda>kv. sz (snd kv)) m) + 2 \<le> sz (VMap m)"
  by (induction m) (auto simp: sz_def)

lemma sz_pos: "0 < sz v"
  by (simp add: sz_def)

lemma sz_VSlice_step: "3 * sum_list (map sz items) < Suc (3 * sz (VSlice items) + n)"
  using sz_VSlice [of items] by linarith

lemma sz_VMap_step: "3 * sum_list (map (\<lambda>kv. sz (snd kv)) m) + 3 < 3 * sz (VMap m)"
  using sz_VMap [of m] by linarith

text \<open>
  \<open>encodeMessage\<close>, \<open>encodeTypedField\<close> and \<open>encodeAutoField\<close>. Each returns the bytes
  it appends to the buffer, or the error; \<open>encodeEntries\<close> is the loop over the sorted
  keys, \<open>encodeItems\<close> the loop over the items of a repeated field.
\<close>

function encodeMessage :: "message \<Rightarrow> MessageType \<Rightarrow> encode_error + byte list"
  and encodeEntries :: "message \<Rightarrow> MessageType \<Rightarrow> encode_error + byte list"
  and encodeItems :: "int \<Rightarrow> val list \<Rightarrow> FieldDef \<Rightarrow> encode_error + byte list"
  and encodeTypedField :: "int \<Rightarrow> val \<Rightarrow> FieldDef \<Rightarrow> encode_error + byte list"
  and encodeAutoField :: "int \<Rightarrow> val \<Rightarrow> encode_error + byte list"
where
  "encodeMessage msg schema = encodeEntries (sorted_entries msg) schema"
| "encodeEntries [] schema = Inr []"
| "encodeEntries ((key, value) # rest) schema =
     (case Atoi key of
        (fieldNum, True) \<Rightarrow> Inl (InvalidFieldNumber key)
      | (fieldNum, False) \<Rightarrow>
          (case (case map_of schema key of
                   None \<Rightarrow> encodeAutoField fieldNum value
                 | Some fieldDef \<Rightarrow>
                     if Repeated fieldDef then
                       (case value of
                          VSlice items \<Rightarrow> encodeItems fieldNum items fieldDef
                        | _ \<Rightarrow> encodeItems fieldNum [value] fieldDef)
                     else encodeTypedField fieldNum value fieldDef) of
             Inl err \<Rightarrow> Inl err
           | Inr out \<Rightarrow>
               (case encodeEntries rest schema of
                  Inl err \<Rightarrow> Inl err
                | Inr out' \<Rightarrow> Inr (out @ out'))))"
| "encodeItems fieldNum [] def = Inr []"
| "encodeItems fieldNum (item # items) def =
     (case encodeTypedField fieldNum item def of
        Inl err \<Rightarrow> Inl err
      | Inr out \<Rightarrow>
          (case encodeItems fieldNum items def of
             Inl err \<Rightarrow> Inl err
           | Inr out' \<Rightarrow> Inr (out @ out')))"
| "encodeTypedField fieldNum value def =
     (case Type def of
        TypeInt \<Rightarrow>
          (case toInt64 value of
             None \<Rightarrow> Inl (InField fieldNum CannotConvertToInt64)
           | Some v \<Rightarrow> Inr (writeVarintField fieldNum v))
      | TypeBool \<Rightarrow>
          (case value of
             VBool v \<Rightarrow> Inr (writeVarintField fieldNum (if v then 1 else 0))
           | _ \<Rightarrow> Inl (ExpectedBool fieldNum))
      | TypeString \<Rightarrow>
          (case value of
             VString s \<Rightarrow> Inr (writeBytesField fieldNum s)
           | _ \<Rightarrow> Inl (ExpectedString fieldNum))
      | TypeBytes \<Rightarrow>
          (case value of
             VBytes b \<Rightarrow> Inr (writeBytesField fieldNum b)
           | VString s \<Rightarrow> Inr (writeBytesField fieldNum s)
           | _ \<Rightarrow> Inl (ExpectedBytes fieldNum))
      | TypeMessage \<Rightarrow>
          (case value of
             VMap msgMap \<Rightarrow>
               (case encodeMessage msgMap (case MessageDef def of None \<Rightarrow> [] | Some d \<Rightarrow> d) of
                  Inl err \<Rightarrow> Inl (InField fieldNum err)
                | Inr nested \<Rightarrow> Inr (writeBytesField fieldNum nested))
           | _ \<Rightarrow> Inl (ExpectedMessage fieldNum))
      | TypeOther t \<Rightarrow> Inl (UnknownType fieldNum))"
| "encodeAutoField fieldNum value =
     (case value of
        VInt v \<Rightarrow> Inr (writeVarintField fieldNum v)
      | VInt32 v \<Rightarrow> Inr (writeVarintField fieldNum (scast v))
      | VInt64 v \<Rightarrow> Inr (writeVarintField fieldNum v)
      | VUint64 v \<Rightarrow> Inr (writeVarintField fieldNum v)
      | VBool v \<Rightarrow> Inr (writeVarintField fieldNum (if v then 1 else 0))
      | VString v \<Rightarrow> Inr (writeBytesField fieldNum v)
      | VBytes v \<Rightarrow> Inr (writeBytesField fieldNum v)
      | VMap v \<Rightarrow>
          (case encodeMessage v [] of
             Inl err \<Rightarrow> Inl err
           | Inr nested \<Rightarrow> Inr (writeBytesField fieldNum nested))
      | _ \<Rightarrow> Inl (UnsupportedAutoType fieldNum))"
  by pat_completeness auto

termination
  apply (relation "measure (\<lambda>x. case x of
      Inl (Inl (msg, schema)) \<Rightarrow> 3 * sum_list (map (\<lambda>kv. sz (snd kv)) msg) + 3
    | Inl (Inr (es, schema)) \<Rightarrow> 3 * sum_list (map (\<lambda>kv. sz (snd kv)) es) + 2
    | Inr (Inl (n, items, d)) \<Rightarrow> 3 * sum_list (map sz items) + 1
    | Inr (Inr (Inl (n, v, d))) \<Rightarrow> 3 * sz v
    | Inr (Inr (Inr (n, v))) \<Rightarrow> 3 * sz v)")
  apply (auto simp: sum_sorted_entries sz_pos sz_VSlice_step sz_VMap_step)
  done

definition Encode :: "message \<Rightarrow> MessageType \<Rightarrow> encode_error + byte list" where
  "Encode message schema = encodeMessage message schema"

section \<open>Strings\<close>


definition space_runes :: "nat list list" where
  "space_runes =
     [[0x09], [0x0A], [0x0B], [0x0C], [0x0D], [0x20], [0xC2, 0x85], [0xC2, 0xA0],
      [0xE1, 0x9A, 0x80], [0xE2, 0x80, 0x80], [0xE2, 0x80, 0x81], [0xE2, 0x80, 0x82],
      [0xE2, 0x80, 0x83], [0xE2, 0x80, 0x84], [0xE2, 0x80, 0x85], [0xE2, 0x80, 0x86],
      [0xE2, 0x80, 0x87], [0xE2, 0x80, 0x88], [0xE2, 0x80, 0x89], [0xE2, 0x80, 0x8A],
      [0xE2, 0x80, 0xA8], [0xE2, 0x80, 0xA9], [0xE2, 0x80, 0xAF], [0xE2, 0x81, 0x9F],
      [0xE3, 0x80, 0x80]]"

definition HasPrefix :: "'a list \<Rightarrow> 'a list \<Rightarrow> bool" where
  "HasPrefix s pre = (take (length pre) s = pre)"

definition TrimPrefix :: "'a list \<Rightarrow> 'a list \<Rightarrow> 'a list" where
  "TrimPrefix s pre = (if HasPrefix s pre then drop (length pre) s else s)"

text \<open>The width of the white-space character at the head of the list, 0 when there is none.\<close>

definition space_width :: "nat list list \<Rightarrow> nat list \<Rightarrow> nat" where
  "space_width runes s =
     (case filter (\<lambda>r. HasPrefix s r) runes of [] \<Rightarrow> 0 | r # _ \<Rightarrow> length r)"

function trim_left :: "nat list list \<Rightarrow> nat list \<Rightarrow> nat list" where
  "trim_left runes s =
     (if s \<noteq> [] \<and> 0 < space_width runes s then trim_left runes (drop (space_width runes s) s)
      else s)"
  by pat_completeness auto
termination
  by (relation "measure (\<lambda>(runes, s). length s)") auto

definition TrimSpace :: "string \<Rightarrow> string" where
  "TrimSpace s =
     map char_of
       (rev (trim_left (map rev space_runes)
          (rev (trim_left space_runes (map of_char s)))))"

text \<open>
  \<open>strings.ReplaceAll(body, "\r\n", "\n")\<close>, \<open>strings.Split(s, sep)\<close> for a separator of
  one character, \<open>strings.Index\<close> for one character (\<open>-1\<close> when absent) and
  \<open>strings.Contains\<close>.
\<close>

fun ReplaceAll_crlf :: "string \<Rightarrow> string" where
  "ReplaceAll_crlf (c # d # s) =
     (if c = CHR 0x0D \<and> d = CHR 0x0A then CHR 0x0A # ReplaceAll_crlf s
      else c # ReplaceAll_crlf (d # s))"
| "ReplaceAll_crlf s = s"

fun Split :: "string \<Rightarrow> char \<Rightarrow> string list" where
  "Split [] sep = [[]]"
| "Split (c # s) sep =
     (if c = sep then [] # Split s sep
      else (case Split s sep of w # ws \<Rightarrow> (c # w) # ws | [] \<Rightarrow> [[c]]))"

fun Index_from :: "string \<Rightarrow> char \<Rightarrow> int \<Rightarrow> int" where
  "Index_from [] c i = - 1"
| "Index_from (x # s) c i = (if x = c then i else Index_from s c (i + 1))"

definition Index :: "string \<Rightarrow> char \<Rightarrow> int" where
  "Index s c = Index_from s c 0"

fun Contains :: "string \<Rightarrow> string \<Rightarrow> bool" where
  "Contains [] sub = (sub = [])"
| "Contains (c # s) sub = (HasPrefix (c # s) sub \<or> Contains s sub)"

section \<open>Configuration\<close>

record DeviceConfig =
  Model :: string
  Brand :: string
  Manufacturer :: string
  DeviceName :: string
  Product :: string
  Hardware :: string
  Fingerprint :: string
  Bootloader :: string
  BuildID :: string
  SDKVersion :: int
  BuildTime :: int

record Config =
  AndroidID :: string
  SecurityToken :: string
  Email :: string
  MasterToken :: string
  Device :: DeviceConfig
  ServerPort :: int

definition DefaultConfig :: Config where
  "DefaultConfig =
     \<lparr>AndroidID = [], SecurityToken = [], Email = [], MasterToken = [],
      Device = \<lparr>Model = ''Pixel 7'', Brand = ''google'', Manufacturer = ''Google'',
                DeviceName = ''panther'', Product = ''panther'', Hardware = ''tensor'',
                Fingerprint =
                  ''google/panther/panther:13/TQ3A.230901.001/10750268:user/release-keys'',
                Bootloader = ''slider-1.2-9971768'', BuildID = ''TQ3A.230901.001'',
                SDKVersion = 33, BuildTime = 1693440000\<rparr>,
      ServerPort = 8080\<rparr>"

definition HasRegistration :: "Config \<Rightarrow> bool" where
  "HasRegistration c = (AndroidID c \<noteq> [] \<and> SecurityToken c \<noteq> [])"

definition HasMasterToken :: "Config \<Rightarrow> bool" where
  "HasMasterToken c = (MasterToken c \<noteq> [] \<and> Email c \<noteq> [])"

definition AuthUserAgent :: "Config \<Rightarrow> string" where
  "AuthUserAgent c =
     ''GoogleAuth/1.4 ('' @ DeviceName (Device c) @ '' '' @ BuildID (Device c) @ ''); gzip''"

text \<open>
  \<open>Config.Save\<close> writes the configuration to the file; the model keeps the content of
  the file (\<open>None\<close>: no file). Whether \<open>os.WriteFile\<close> succeeds is the environment's
  choice: \<open>Some msg\<close> is its error.
\<close>

type_synonym disk = "Config option"

definition Save :: "string option \<Rightarrow> Config \<Rightarrow> disk \<Rightarrow> string option \<times> disk" where
  "Save write_err c d = (case write_err of None \<Rightarrow> (None, Some c) | Some e \<Rightarrow> (Some e, d))"

section \<open>HTTP as the environment\<close>

text \<open>
  A request is what the code puts into it; the payload is the form of the auth endpoint
  or the protobuf bytes of the check-in (before compression). The reply is the
  environment's: the transport fails, or there is a status, the raw body, and the result
  of the path that decompresses and reads the body.
\<close>

record 'p http_request =
  url :: string
  headers :: "(string \<times> string) list"
  payload :: 'p

datatype 'b body_read = GzipFailed string | ReadFailed string | Body 'b

datatype 'b http_reply = DoFailed string | Reply int 'b "'b body_read"

section \<open>Credential exchange client\<close>

record Response =
  Auth :: string
  Token :: string
  RespEmail :: string
  Sid :: string
  LSid :: string
  Services :: string
  FirstName :: string
  LastName :: string
  AccountID :: string
  Expiry :: int
  IssueAdvice :: string
  GrantedScopes :: string
  Error :: string
  RawFields :: "(string \<times> string) list"

datatype auth_error =
    NoMasterToken
  | AuthRequestFailed string
  | GzipReaderFailed string
  | ReadResponseFailed string
  | AuthFailed int string

definition empty_Response :: Response where
  "empty_Response =
     \<lparr>Auth = [], Token = [], RespEmail = [], Sid = [], LSid = [], Services = [],
      FirstName = [], LastName = [], AccountID = [], Expiry = 0, IssueAdvice = [],
      GrantedScopes = [], Error = [], RawFields = []\<rparr>"

text \<open>The body of the loop of \<open>parseAuthResponse\<close>, for one line.\<close>

definition parseAuthLine :: "Response \<Rightarrow> string \<Rightarrow> Response" where
  "parseAuthLine r line0 =
     (let line = TrimSpace line0; idx = Index line CHR ''='' in
      if idx \<le> 0 then r
      else
        let key = take (nat idx) line;
            value = drop (nat (idx + 1)) line;
            r = r\<lparr>RawFields := map_set (RawFields r) key value\<rparr>
        in if key = ''Auth'' then r\<lparr>Auth := value\<rparr>
           else if key = ''Token'' then r\<lparr>Token := value\<rparr>
           else if key = ''Email'' then r\<lparr>RespEmail := value\<rparr>
           else if key = ''SID'' then r\<lparr>Sid := value\<rparr>
           else if key = ''LSID'' then r\<lparr>LSid := value\<rparr>
           else if key = ''services'' then r\<lparr>Services := value\<rparr>
           else if key = ''firstName'' then r\<lparr>FirstName := value\<rparr>
           else if key = ''lastName'' then r\<lparr>LastName := value\<rparr>
           else if key = ''accountId'' then r\<lparr>AccountID := value\<rparr>
           else if key = ''issueAdvice'' then r\<lparr>IssueAdvice := value\<rparr>
           else if key = ''grantedScopes'' then r\<lparr>GrantedScopes := value\<rparr>
           else if key = ''Error'' then r\<lparr>Error := value\<rparr>
           else r)"

definition parseAuthResponse :: "string \<Rightarrow> Response" where
  "parseAuthResponse body =
     foldl parseAuthLine empty_Response (Split (ReplaceAll_crlf body) (CHR 0x0A))"

definition authURL :: string where
  "authURL = ''https://android.googleapis.com/auth''"

definition form_Get :: "(string \<times> string) list \<Rightarrow> string \<Rightarrow> string" where
  "form_Get form k = (case map_of form k of None \<Rightarrow> [] | Some v \<Rightarrow> v)"

type_synonym auth_net = "(string \<times> string) list http_request \<Rightarrow> string http_reply"

type_synonym auth_result =
  "(Response option \<times> auth_error option) \<times> (string \<times> string) list http_request list"

text \<open>
  \<open>doAuthRequest\<close>: the pair \<open>(*Response, error)\<close> of the source, and the requests the
  call has sent. (\<open>http.NewRequest\<close> cannot fail on the constant method and URL.)
\<close>

definition doAuthRequest :: "auth_net \<Rightarrow> Config \<Rightarrow> (string \<times> string) list \<Rightarrow> auth_result" where
  "doAuthRequest net cfg form =
     (let req = \<lparr>url = authURL,
                 headers = [(''Content-Type'', ''application/x-www-form-urlencoded''),
                            (''Accept-Encoding'', ''gzip''),
                            (''User-Agent'', AuthUserAgent cfg),
                            (''app'', form_Get form ''app''),
                            (''device'', AndroidID cfg),
                            (''Connection'', ''Keep-Alive'')],
                 payload = form\<rparr>
      in (case net req of
            DoFailed e \<Rightarrow> (None, Some (AuthRequestFailed e))
          | Reply status raw content \<Rightarrow>
              (case content of
                 GzipFailed e \<Rightarrow> (None, Some (GzipReaderFailed e))
               | ReadFailed e \<Rightarrow> (None, Some (ReadResponseFailed e))
               | Body body \<Rightarrow>
                   let result = parseAuthResponse body in
                   if status \<noteq> 200
                   then (Some result,
                         Some (AuthFailed status (if Error result = [] then body else Error result)))
                   else (Some result, None)),
          [req]))"

definition ExchangeOAuthForMaster :: "auth_net \<Rightarrow> Config \<Rightarrow> string \<Rightarrow> auth_result" where
  "ExchangeOAuthForMaster net cfg oauthToken =
     doAuthRequest net cfg
       [(''androidId'', AndroidID cfg),
        (''sdk_version'', Sprintf_d (SDKVersion (Device cfg))),
        (''device_country'', ''us''),
        (''operatorCountry'', ''us''),
        (''lang'', ''en_US''),
        (''google_play_services_version'', ''224714044''),
        (''accountType'', ''HOSTED_OR_GOOGLE''),
        (''service'', ''ac2dm''),
        (''source'', ''android''),
        (''app'', ''com.google.android.gms''),
        (''client_sig'', ''38918a453d07199354f8b19af05ec6562ced5788''),
        (''callerPkg'', ''com.google.android.gms''),
        (''callerSig'', ''38918a453d07199354f8b19af05ec6562ced5788''),
        (''Token'', oauthToken),
        (''ACCESS_TOKEN'', ''1''),
        (''add_account'', ''1''),
        (''get_accountid'', ''1''),
        (''is_called_from_account_manager'', ''1'')]"

definition FetchServiceToken ::
  "auth_net \<Rightarrow> Config \<Rightarrow> string \<Rightarrow> string \<Rightarrow> string \<Rightarrow> auth_result" where
  "FetchServiceToken net cfg scope appPackage appSig =
     (if \<not> HasMasterToken cfg then ((None, Some NoMasterToken), [])
      else doAuthRequest net cfg
        [(''androidId'', AndroidID cfg),
         (''sdk_version'', Sprintf_d (SDKVersion (Device cfg))),
         (''device_country'', ''us''),
         (''operatorCountry'', ''us''),
         (''lang'', ''en_US''),
         (''google_play_services_version'', ''224714044''),
         (''accountType'', ''HOSTED_OR_GOOGLE''),
         (''Email'', Email cfg),
         (''service'', scope),
         (''source'', ''android''),
         (''app'', appPackage),
         (''client_sig'', appSig),
         (''callerPkg'', appPackage),
         (''callerSig'', appSig),
         (''Token'', MasterToken cfg),
         (''system_partition'', ''1''),
         (''has_permission'', ''1'')])"

definition GoogleSig :: string where
  "GoogleSig = ''24bb24c05e47e0aefa68a58a766179d9b613a600''"

definition KnownApps :: "(string \<times> string \<times> string) list" where
  "KnownApps =
     [(''photos'', ''com.google.android.apps.photos'',
         ''oauth2:openid https://www.googleapis.com/auth/mobileapps.native https://www.googleapis.com/auth/photos.native''),
      (''youtube'', ''com.google.android.youtube'', ''oauth2:https://www.googleapis.com/auth/youtube''),
      (''gmail'', ''com.google.android.gm'', ''oauth2:https://mail.google.com/''),
      (''drive'', ''com.google.android.apps.docs'', ''oauth2:https://www.googleapis.com/auth/drive''),
      (''calendar'', ''com.google.android.calendar'', ''oauth2:https://www.googleapis.com/auth/calendar''),
      (''gms'', ''com.google.android.gms'', ''ac2dm'')]"

text \<open>\<open>err.Error()\<close> of the errors of the auth package.\<close>

definition auth_error_string :: "auth_error \<Rightarrow> string" where
  "auth_error_string e =
     (case e of
        NoMasterToken \<Rightarrow> ''no master token; run '' @ [CHR 0x27] @ ''gauth login'' @ [CHR 0x27] @ '' first''
      | AuthRequestFailed m \<Rightarrow> ''auth request: '' @ m
      | GzipReaderFailed m \<Rightarrow> ''gzip reader: '' @ m
      | ReadResponseFailed m \<Rightarrow> ''read response: '' @ m
      | AuthFailed status m \<Rightarrow> ''auth failed: status '' @ Sprintf_d status @ '': '' @ m)"

section \<open>Local API server: the token endpoint\<close>

record TokenRequest =
  Scope :: string
  AppPackage :: string
  AppSig :: string

record TokenResponse =
  tr_Token :: string
  tr_Email :: string
  tr_TokenType :: string
  tr_GrantedScopes :: string
  tr_Error :: string

text \<open>
  The request as the handler reads it: the method, the outcome of decoding the JSON
  body (\<open>Inl\<close> the error of the decoder), and the query parameters.
\<close>

record api_request =
  Method :: string
  json_body :: "string + TokenRequest"
  query :: "(string \<times> string) list"

definition error_response :: "string \<Rightarrow> TokenResponse" where
  "error_response msg =
     \<lparr>tr_Token = [], tr_Email = [], tr_TokenType = [], tr_GrantedScopes = [], tr_Error = msg\<rparr>"

text \<open>The classification of lines 112 to 117 of the handler.\<close>

definition tokenType :: "string \<Rightarrow> string" where
  "tokenType auth =
     (if length auth > 7 \<and> take 7 auth = ''aas_et/'' then ''aes''
      else if length auth > 5 \<and> take 5 auth = ''ya29.'' then ''oauth2''
      else ''unknown'')"

text \<open>
  The handler of \<open>/api/token\<close>: the status and the JSON value it writes (\<open>None\<close> if
  the handler panics on a nil response), and the requests sent to the auth endpoint.
  \<open>token_reply\<close> is the part of the handler behind the call of \<open>FetchServiceToken\<close>.
\<close>

definition token_reply ::
  "Config \<Rightarrow> auth_result \<Rightarrow>
   (int \<times> TokenResponse) option \<times> (string \<times> string) list http_request list" where
  "token_reply cfg fetched =
     (case fetched of
        ((resp, Some err), sent) \<Rightarrow>
          (Some (500, error_response (auth_error_string err)), sent)
      | ((None, None), sent) \<Rightarrow> (None, sent)
      | ((Some resp, None), sent) \<Rightarrow>
          if Auth resp = []
          then (Some (500, error_response ''empty token in response''), sent)
          else (Some (200, \<lparr>tr_Token = Auth resp, tr_Email = Email cfg,
                       tr_TokenType = tokenType (Auth resp),
                       tr_GrantedScopes = GrantedScopes resp,
                       tr_Error = []\<rparr>), sent))"

definition token_handler ::
  "auth_net \<Rightarrow> Config \<Rightarrow> api_request \<Rightarrow>
   (int \<times> TokenResponse) option \<times> (string \<times> string) list http_request list" where
  "token_handler net cfg r =
     (if Method r \<noteq> ''POST'' \<and> Method r \<noteq> ''GET''
      then (Some (405, error_response ''use POST or GET''), [])
      else if \<not> HasMasterToken cfg
      then (Some (401, error_response
              (''not logged in; run '' @ [CHR 0x27] @ ''gauth login'' @ [CHR 0x27] @ '' first'')), [])
      else
        (case (if Method r = ''POST'' then json_body r
               else Inr \<lparr>Scope = form_Get (query r) ''scope'',
                         AppPackage = form_Get (query r) ''app'',
                         AppSig = form_Get (query r) ''sig''\<rparr>) of
           Inl err \<Rightarrow> (Some (400, error_response (''invalid JSON: '' @ err)), [])
         | Inr req0 \<Rightarrow>
             let req1 = (case map_of KnownApps (Scope req0) of
                           Some (package, scope) \<Rightarrow>
                             req0\<lparr>Scope := scope,
                                  AppPackage := (if AppPackage req0 = [] then package
                                                 else AppPackage req0)\<rparr>
                         | None \<Rightarrow> req0)
             in if Scope req1 = []
                then (Some (400, error_response
                        ''scope is required. Try: photos, youtube, gmail, drive, or a full OAuth2 scope''),
                      [])
                else
                  let req2 = (if AppPackage req1 = []
                              then req1\<lparr>AppPackage := ''com.google.android.gms''\<rparr> else req1);
                      req3 = (if AppSig req2 = [] then req2\<lparr>AppSig := GoogleSig\<rparr> else req2)
                  in token_reply cfg
                       (FetchServiceToken net cfg (Scope req3) (AppPackage req3) (AppSig req3))))"

section \<open>Device registration client\<close>















section \<open>Interception proxy: capture state and token exchange\<close>

text \<open>
  \<open>ProxyState\<close> without its mutex: every method below runs with the mutex held, so it is
  one atomic step. A listener is a channel of capacity 1; \<open>True\<close> when it holds a signal.
\<close>

record ProxyState =
  captured :: bool
  oauthToken :: string
  email :: string
  error :: string
  listeners :: "bool list"

definition NewProxyState :: ProxyState where
  "NewProxyState = \<lparr>captured = False, oauthToken = [], email = [], error = [], listeners = []\<rparr>"

definition SetToken :: "ProxyState \<Rightarrow> string \<Rightarrow> ProxyState" where
  "SetToken s token =
     s\<lparr>oauthToken := token, captured := True, listeners := map (\<lambda>ch. True) (listeners s)\<rparr>"

definition SetResult :: "ProxyState \<Rightarrow> string \<Rightarrow> string \<Rightarrow> ProxyState" where
  "SetResult s em errMsg = s\<lparr>email := em, error := errMsg\<rparr>"

definition IsCaptured :: "ProxyState \<Rightarrow> bool" where
  "IsCaptured s = captured s"

definition Subscribe :: "ProxyState \<Rightarrow> nat \<times> ProxyState" where
  "Subscribe s = (length (listeners s), s\<lparr>listeners := listeners s @ [captured s]\<rparr>)"

text \<open>
  \<open>exchangeToken\<close>: the configuration in memory, the file and the capture state, before
  and after, and the requests sent. A nil response without an error would be dereferenced;
  the auth client never returns one, and the model leaves the state as it is there.
\<close>

definition exchangeToken ::
  "auth_net \<Rightarrow> string option \<Rightarrow> Config \<Rightarrow> disk \<Rightarrow> ProxyState \<Rightarrow> string \<Rightarrow>
   (Config \<times> disk \<times> ProxyState) \<times> (string \<times> string) list http_request list" where
  "exchangeToken net write_err cfg d state oauthTok =
     (case ExchangeOAuthForMaster net cfg oauthTok of
        ((resp, Some err), sent) \<Rightarrow>
          ((cfg, d, SetResult state [] (auth_error_string err)), sent)
      | ((None, None), sent) \<Rightarrow> ((cfg, d, state), sent)
      | ((Some resp, None), sent) \<Rightarrow>
          let masterToken = (if Token resp = [] then Auth resp else Token resp) in
          if masterToken = []
          then ((cfg, d, SetResult state [] (''empty token in response: '' @ Error resp)), sent)
          else
            let cfg' = cfg\<lparr>MasterToken := masterToken, Email := RespEmail resp\<rparr> in
            (case Save write_err cfg' d of
               (Some e, d') \<Rightarrow> ((cfg', d', SetResult state [] (''save failed: '' @ e)), sent)
             | (None, d') \<Rightarrow> ((cfg', d', SetResult state (RespEmail resp) []), sent)))"

section \<open>Interception proxy: the capture in concurrent handlers\<close>

text \<open>
  The tokens that the loop over the parts of one \<open>Set-Cookie\<close> header offers to the
  capture: for a header that contains \<open>oauth_token=\<close>, every part (split at \<open>;\<close>,
  trimmed) with that prefix, without the prefix.
\<close>

definition cookie_tokens :: "string \<Rightarrow> string list" where
  "cookie_tokens sc =
     (if Contains sc ''oauth_token=''
      then map (\<lambda>part. TrimPrefix part ''oauth_token='')
             (filter (\<lambda>part. HasPrefix part ''oauth_token='')
                (map TrimSpace (Split sc (CHR '';''))))
      else [])"

text \<open>
  A handler is a goroutine; between two acquisitions of the mutex any other handler may
  run. For each offered token the source executes
  \<^verbatim>\<open>if token != "" && !state.IsCaptured() { state.SetToken(token); go exchangeToken(...) }\<close>,
  that is three steps: the test (\<open>IsCaptured\<close> holds the mutex), \<open>SetToken\<close> (holds the
  mutex again), and the dispatch of the background exchange. A handler is the list of
  tokens it still has to offer and the point it has reached for the first of them.
\<close>

datatype point = AtTest | AtSetToken | AtDispatch

record handler =
  tokens :: "string list"
  at :: point

record system =
  state :: ProxyState
  dispatched :: "string list"
  handlers :: "handler list"

definition new_handler :: "string list \<Rightarrow> handler" where
  "new_handler set_cookies = \<lparr>tokens = concat (map cookie_tokens set_cookies), at = AtTest\<rparr>"

text \<open>One step of handler \<open>i\<close>; a handler that has finished does nothing.\<close>

definition step :: "system \<Rightarrow> nat \<Rightarrow> system" where
  "step sys i =
     (if i \<ge> length (handlers sys) then sys
      else
        let h = handlers sys ! i in
        (case tokens h of
           [] \<Rightarrow> sys
         | token # rest \<Rightarrow>
             (case at h of
                AtTest \<Rightarrow>
                  if token \<noteq> [] \<and> \<not> IsCaptured (state sys)
                  then sys\<lparr>handlers := (handlers sys)[i := h\<lparr>at := AtSetToken\<rparr>]\<rparr>
                  else sys\<lparr>handlers := (handlers sys)[i := h\<lparr>tokens := rest\<rparr>]\<rparr>
              | AtSetToken \<Rightarrow>
                  sys\<lparr>state := SetToken (state sys) token,
                      handlers := (handlers sys)[i := h\<lparr>at := AtDispatch\<rparr>]\<rparr>
              | AtDispatch \<Rightarrow>
                  sys\<lparr>dispatched := dispatched sys @ [token],
                      handlers := (handlers sys)[i := h\<lparr>tokens := rest, at := AtTest\<rparr>]\<rparr>)))"

text \<open>A schedule names the handler that takes each step.\<close>

definition run :: "system \<Rightarrow> nat list \<Rightarrow> system" where
  "run sys schedule = foldl step sys schedule"

definition start :: "string list list \<Rightarrow> system" where
  "start responses =
     \<lparr>state = NewProxyState, dispatched = [], handlers = map new_handler responses\<rparr>"

definition finished :: "system \<Rightarrow> bool" where
  "finished sys = list_all (\<lambda>h. tokens h = []) (handlers sys)"

section \<open>Notions for the statements\<close>

text \<open>
  Nothing in this section is code of the repository: these are the notions in which the
  properties of the code are stated.
\<close>

subsection \<open>Environments and examples\<close>

text \<open>An environment that gives the same reply to every request.\<close>

definition always :: "'b \<Rightarrow> 'a \<Rightarrow> 'b" where
  "always reply req = reply"

text \<open>Examples: a configuration after registration and login, and a request for a token.\<close>

definition stored_config :: Config where
  "stored_config =
     DefaultConfig\<lparr>AndroidID := ''3f2a'', SecurityToken := ''77'',
                   Email := ''user@example.com'', MasterToken := ''aas_et/old''\<rparr>"

definition photos_request :: api_request where
  "photos_request = \<lparr>Method = ''GET'', json_body = Inl [], query = [(''scope'', ''photos'')]\<rparr>"


subsection \<open>The fields of the wire format\<close>

text \<open>
  The encoder writes fields of two kinds: a varint field and a length-delimited field.
  \<open>field_bytes\<close> is the field on the wire. \<open>field_value\<close> is the value that the decoder
  stores for the field, \<open>None\<close> where it panics: for a length-delimited field the nested
  message if the payload decodes to a non-empty one, else the text or the bytes.
  \<open>collect\<close> is what the decoder has stored after a sequence of fields.
\<close>

datatype wire_field = VarintField int uint64 | BytesField int "byte list"

fun field_bytes :: "wire_field \<Rightarrow> byte list" where
  "field_bytes (VarintField n v) = writeVarintField n v"
| "field_bytes (BytesField n b) = writeBytesField n b"

fun field_number :: "wire_field \<Rightarrow> int" where
  "field_number (VarintField n v) = n"
| "field_number (BytesField n b) = n"

definition text_or_bytes :: "byte list \<Rightarrow> val" where
  "text_or_bytes p = (if isLikelyString p then VString p else VBytes p)"

definition payload_value :: "byte list \<Rightarrow> val option" where
  "payload_value p =
     (case DecodeMessage p of
        Panic \<Rightarrow> None
      | Ok nested \<Rightarrow> Some (if length nested > 0 then VMap nested else text_or_bytes p)
      | Err e \<Rightarrow> Some (text_or_bytes p))"

fun field_value :: "wire_field \<Rightarrow> val option" where
  "field_value (VarintField n v) = Some (VInt64 v)"
| "field_value (BytesField n b) = payload_value b"

fun collect :: "message \<Rightarrow> wire_field list \<Rightarrow> (decode_error, message) outcome" where
  "collect result [] = Ok result"
| "collect result (f # fs) =
     (case field_value f of
        None \<Rightarrow> Panic
      | Some v \<Rightarrow> collect (addToResult result (Sprintf_d (field_number f)) v) fs)"

text \<open>The field that the encoder writes for a scalar item of a declared type.\<close>

definition item_field :: "int \<Rightarrow> FieldType \<Rightarrow> val \<Rightarrow> wire_field option" where
  "item_field n t v =
     (case t of
        TypeInt \<Rightarrow> map_option (VarintField n) (toInt64 v)
      | TypeBool \<Rightarrow> (case v of VBool b \<Rightarrow> Some (VarintField n (if b then 1 else 0)) | _ \<Rightarrow> None)
      | TypeString \<Rightarrow> (case v of VString s \<Rightarrow> Some (BytesField n s) | _ \<Rightarrow> None)
      | TypeBytes \<Rightarrow>
          (case v of VBytes b \<Rightarrow> Some (BytesField n b) | VString s \<Rightarrow> Some (BytesField n s)
           | _ \<Rightarrow> None)
      | _ \<Rightarrow> None)"

fun item_fields :: "int \<Rightarrow> FieldType \<Rightarrow> val list \<Rightarrow> wire_field list option" where
  "item_fields n t [] = Some []"
| "item_fields n t (v # vs) =
     (case item_field n t v of
        None \<Rightarrow> None
      | Some f \<Rightarrow> (case item_fields n t vs of None \<Rightarrow> None | Some fs \<Rightarrow> Some (f # fs)))"

text \<open>
  The fields that \<open>encodeMessage\<close> writes for an entry whose value is a scalar, or a
  sequence of scalars under a repeated definition (\<open>None\<close>: the key is no number, the value
  does not fit the definition, or it is a nested message).
\<close>

definition auto_field :: "int \<Rightarrow> val \<Rightarrow> wire_field option" where
  "auto_field n v =
     (case v of
        VInt x \<Rightarrow> Some (VarintField n x)
      | VInt32 x \<Rightarrow> Some (VarintField n (scast x))
      | VInt64 x \<Rightarrow> Some (VarintField n x)
      | VUint64 x \<Rightarrow> Some (VarintField n x)
      | VBool b \<Rightarrow> Some (VarintField n (if b then 1 else 0))
      | VString s \<Rightarrow> Some (BytesField n s)
      | VBytes b \<Rightarrow> Some (BytesField n b)
      | _ \<Rightarrow> None)"

definition entry_fields :: "MessageType \<Rightarrow> string \<times> val \<Rightarrow> wire_field list option" where
  "entry_fields schema kv =
     (case Atoi (fst kv) of
        (n, True) \<Rightarrow> None
      | (n, False) \<Rightarrow>
          (case map_of schema (fst kv) of
             None \<Rightarrow> map_option (\<lambda>f. [f]) (auto_field n (snd kv))
           | Some def \<Rightarrow>
               if Repeated def then
                 (case snd kv of
                    VSlice items \<Rightarrow> item_fields n (Type def) items
                  | _ \<Rightarrow> item_fields n (Type def) [snd kv])
               else map_option (\<lambda>f. [f]) (item_field n (Type def) (snd kv))))"

fun entries_fields :: "MessageType \<Rightarrow> message \<Rightarrow> wire_field list option" where
  "entries_fields schema [] = Some []"
| "entries_fields schema (kv # rest) =
     (case entry_fields schema kv of
        None \<Rightarrow> None
      | Some fs \<Rightarrow>
          (case entries_fields schema rest of None \<Rightarrow> None | Some fs' \<Rightarrow> Some (fs @ fs')))"

text \<open>The value that the decoder reads back for an entry written as a single field.\<close>

definition entry_value :: "MessageType \<Rightarrow> string \<times> val \<Rightarrow> val option" where
  "entry_value schema kv =
     (case entry_fields schema kv of Some [f] \<Rightarrow> field_value f | _ \<Rightarrow> None)"

definition field_key :: "wire_field \<Rightarrow> string" where
  "field_key f = Sprintf_d (field_number f)"

section \<open>Properties of the decoder\<close>

lemma sint64_of_int:
  "- (2 ^ 63) \<le> z \<Longrightarrow> z < 2 ^ 63 \<Longrightarrow> sint (word_of_int z :: 64 word) = z"
  by (simp only: signed_of_int) (simp add: signed_take_bit_int_eq_self)

lemma add_int_id: "- (2 ^ 63) \<le> a + b \<Longrightarrow> a + b < 2 ^ 63 \<Longrightarrow> add_int a b = a + b"
  unfolding add_int_def by (rule sint64_of_int)




text \<open>
  The part of C4 that holds: a varint that the buffer cuts short is an error, and so is a
  declared length that runs past the end of the buffer, as long as the end of the payload
  is below \<open>2^63\<close>.
\<close>

lemma sint_uint_small: "uint (len :: uint64) < 2 ^ 63 \<Longrightarrow> sint len = uint len"
proof -
  assume u: "uint len < 2 ^ 63"
  have z: "0 \<le> uint len" by simp
  have "- (2 ^ 63) \<le> (0 :: int)" by simp
  from this z have "- (2 ^ 63) \<le> uint len" by (rule order_trans)
  then have "sint (word_of_int (uint len) :: uint64) = uint len"
    using u by (rule sint64_of_int)
  then show ?thesis by simp
qed

lemma truncated_tag_is_an_error:
  assumes "0 \<le> pos" "pos < int (length data)" "Uvarint (drop (nat pos) data) = (v, n)" "n \<le> 0"
  shows "DecodeMessage_from data pos result = Err (FailedToReadTag pos)"
  using assms by (subst DecodeMessage_from.simps) (simp add: slice_from_def)

lemma length_past_end_is_an_error:
  assumes "0 \<le> pos" "pos < int (length data)"
    and "Uvarint (drop (nat pos) data) = (tag, n)" "0 < n" "tag AND 0x7 = 2"
    and "Uvarint (drop (nat (pos + n)) data) = (len, n1)" "0 < n1"
    and "int (length data) < pos + n + n1 + uint len" "pos + n + n1 + uint len < 2 ^ 63"
  shows "DecodeMessage_from data pos result = Err (NotEnoughDataBytes (sint (drop_bit 3 tag)))"
proof -
  have n_le: "pos + n \<le> int (length data)"
    using Uvarint_le [OF assms(3)] assms(1,2) by simp
  have s0: "slice_from data pos = Some (drop (nat pos) data)"
    using assms(1,2) by (simp add: slice_from_def)
  have s1: "slice_from data (pos + n) = Some (drop (nat (pos + n)) data)"
    using assms(1,4) n_le by (simp add: slice_from_def)
  have u: "uint len < 2 ^ 63" using assms(1,4,7,9) by simp
  have sl: "sint len = uint len" using u by (rule sint_uint_small)
  have "0 \<le> pos + n + n1 + uint len" using assms(1,4,7) by simp
  then have "- (2 ^ 63) \<le> pos + n + n1 + uint len" by simp
  then have a: "add_int (pos + n + n1) (uint len) = pos + n + n1 + uint len"
    using assms(9) by (rule add_int_id)
  show ?thesis
    apply (subst DecodeMessage_from.simps)
    using assms(2,4,5,7,8)
    apply (simp add: s0 s1 assms(3) assms(6) Let_def sl a)
    done
qed

text \<open>
  C4. The decoder is not total: a length varint of \<open>2^63\<close> or more becomes a negative
  \<open>int(length)\<close>, the bounds check \<open>pos+int(length) > len(data)\<close> passes, and the slice
  expression \<open>data[pos : pos+int(length)]\<close> panics. Here the tag is field 1 with wire
  type 2 and the length is \<open>2^64 - 1\<close>, read as \<open>-1\<close>: the slice is \<open>data[11:10]\<close>.
\<close>

theorem DecodeMessage_panics_on_huge_length:
  "DecodeMessage [0x0A, 0xFF, 0xFF, 0xFF, 0xFF, 0xFF, 0xFF, 0xFF, 0xFF, 0xFF, 0x01] = Panic"
  by code_simp

section \<open>The decoder on the output of the encoder\<close>

subsection \<open>Varints\<close>

lemma byte_7f: "(0x7f :: byte) = mask 7" by (simp add: mask_eq_exp_minus_1)

lemma bit_128_int: "bit (128 :: int) n = (n = 7)"
proof -
  have "bit ((2 :: int) ^ 7) n = (n = 7)" by (simp only: bit_exp_iff) auto
  then show ?thesis by simp
qed

lemma low7_recombine:
  "ucast ((ucast (w :: uint64) OR (0x80 :: byte)) AND 0x7f) OR push_bit 7 (drop_bit 7 w) = w"
proof (rule bit_word_eqI)
  fix n assume "n < LENGTH(64)"
  then show "bit (ucast ((ucast w OR (0x80 :: byte)) AND 0x7f) OR push_bit 7 (drop_bit 7 w)) n = bit w n"
    unfolding byte_7f
    by (cases "n < 7") (auto simp: bit_simps bit_128_int)
qed

lemma small_bits: "(w :: uint64) < 0x80 \<Longrightarrow> bit w n \<Longrightarrow> n < 7"
proof -
  assume a: "w < 0x80" and b: "bit w n"
  have "w < 2 ^ 7" using a by simp
  then have "w AND mask 7 = w" by (rule less_mask_eq)
  then have "bit (w AND mask 7) n" using b by simp
  then show "n < 7" by (simp add: bit_simps)
qed

lemma ucast_small: "(w :: uint64) < 0x80 \<Longrightarrow> ucast (ucast w :: byte) = w"
  by (rule bit_word_eqI) (auto simp: bit_simps dest: small_bits)

lemma ucast_small_lt: "(w :: uint64) < 0x80 \<Longrightarrow> (ucast w :: byte) < 0x80"
proof -
  assume a: "w < 0x80"
  have "unat (ucast w :: byte) = unat w mod 256"
    by (simp add: unsigned_ucast_eq take_bit_eq_mod)
  moreover have "unat w < 128" using a by (simp add: word_less_nat_alt)
  ultimately show ?thesis by (simp add: word_less_nat_alt)
qed

lemma big_byte: "\<not> ((ucast (w :: uint64) OR (0x80 :: byte)) < 0x80)"
proof -
  have "(0x80 :: byte) \<le> 0x80 OR ucast w" by (rule le_word_or2)
  then show ?thesis by (simp add: or.commute)
qed

lemma pow_step: "i \<le> 8 \<Longrightarrow> (2 :: nat) ^ (64 - 7 * i) = 2 ^ (64 - 7 * Suc i) * 128"
proof -
  assume i8: "i \<le> 8"
  have "64 - 7 * i = (64 - 7 * Suc i) + 7" using i8 by simp
  then have "(2 :: nat) ^ (64 - 7 * i) = 2 ^ ((64 - 7 * Suc i) + 7)" by (simp only:)
  then show ?thesis by (simp only: power_add) simp
qed

text \<open>Round trip of a varint, from any point of the loop of Uvarint.\<close>

lemma Uvarint_from_PutUvarint:
  "i \<le> 9 \<Longrightarrow> unat w < 2 ^ (64 - 7 * i) \<Longrightarrow>
   Uvarint_from (PutUvarint w @ rest) i x (7 * i) =
     (x OR push_bit (7 * i) w, int i + int (length (PutUvarint w)))"
proof (induction w arbitrary: i x rule: PutUvarint.induct)
  case (1 w)
  show ?case
  proof (cases "w \<ge> 0x80")
    case True
    then have big: "128 \<le> unat w" by (simp add: word_le_nat_alt)
    have i8: "i \<le> 8"
    proof (rule ccontr)
      assume "\<not> i \<le> 8"
      with "1.prems" have "i = 9" by simp
      with "1.prems" big show False by simp
    qed
    have d: "unat (drop_bit 7 w) = unat w div 128"
      using unat_drop_bit_eq [of 7 w] by (simp only: drop_bit_eq_div) simp
    have "unat w < 2 ^ (64 - 7 * i)" by (rule "1.prems")
    moreover have "(2 :: nat) ^ (64 - 7 * i) = 2 ^ (64 - 7 * Suc i) * 128"
      using i8 by (rule pow_step)
    ultimately have small: "unat (drop_bit 7 w) < 2 ^ (64 - 7 * Suc i)"
      using d by (simp add: less_mult_imp_div_less)
    let ?X = "x OR push_bit (7 * i) (ucast ((ucast w OR (0x80 :: byte)) AND 0x7f))"
    have ih: "Uvarint_from (PutUvarint (drop_bit 7 w) @ rest) (Suc i) ?X (7 * Suc i) =
              (?X OR push_bit (7 * Suc i) (drop_bit 7 w),
               int (Suc i) + int (length (PutUvarint (drop_bit 7 w))))"
      using i8 small by (intro "1.IH" [OF True]) simp_all
    have comb: "?X OR push_bit (7 * Suc i) (drop_bit 7 w) = x OR push_bit (7 * i) w"
    proof -
      have "push_bit (7 * Suc i) (drop_bit 7 w) = push_bit (7 * i) (push_bit 7 (drop_bit 7 w))"
        by (simp add: push_bit_push_bit add.commute)
      then have "push_bit (7 * i) (ucast ((ucast w OR (0x80 :: byte)) AND 0x7f))
                 OR push_bit (7 * Suc i) (drop_bit 7 w) =
                 push_bit (7 * i) (ucast ((ucast w OR (0x80 :: byte)) AND 0x7f)
                    OR push_bit 7 (drop_bit 7 w))"
        by (simp only: push_bit_or)
      then have "push_bit (7 * i) (ucast ((ucast w OR (0x80 :: byte)) AND 0x7f))
                 OR push_bit (7 * Suc i) (drop_bit 7 w) = push_bit (7 * i) w"
        by (simp only: low7_recombine)
      then show ?thesis by (simp only: or.assoc)
    qed
    have p: "PutUvarint w = (ucast w OR 0x80) # PutUvarint (drop_bit 7 w)"
      using True by (subst PutUvarint.simps) simp
    have len: "int (Suc i) + int (length (PutUvarint (drop_bit 7 w))) =
               int i + int (length (PutUvarint w))"
      by (simp add: p)
    have i10: "i \<noteq> 10" using i8 by simp
    have "Uvarint_from (((ucast w OR 0x80) # PutUvarint (drop_bit 7 w)) @ rest) i x (7 * i) =
          Uvarint_from (PutUvarint (drop_bit 7 w) @ rest) (Suc i) ?X (7 * Suc i)"
      using i10 big_byte [of w] by (simp add: add.commute)
    then have "Uvarint_from (PutUvarint w @ rest) i x (7 * i) =
          Uvarint_from (PutUvarint (drop_bit 7 w) @ rest) (Suc i) ?X (7 * Suc i)"
      by (simp only: p)
    then show ?thesis by (simp only: ih comb len)
  next
    case False
    then have lt: "w < 0x80" by simp
    have p: "PutUvarint w = [ucast w]"
      using False by (subst PutUvarint.simps) simp
    have b1: "i = 9 \<Longrightarrow> \<not> (ucast w :: byte) > 1"
    proof -
      assume "i = 9"
      with "1.prems" have "unat w < 2" by simp
      moreover have "unat (ucast w :: byte) = unat w mod 256"
        by (simp add: unsigned_ucast_eq take_bit_eq_mod)
      ultimately have "unat (ucast w :: byte) < 2" by simp
      then show ?thesis by (simp add: word_less_nat_alt)
    qed
    have i10: "i \<noteq> 10" using "1.prems" by simp
    have "Uvarint_from ([ucast w] @ rest) i x (7 * i) = (x OR push_bit (7 * i) (ucast (ucast w :: byte)), int i + 1)"
      using i10 ucast_small_lt [OF lt] b1 by simp
    then show ?thesis by (simp add: p ucast_small [OF lt])
  qed
qed

lemma Uvarint_writeVarint:
  "Uvarint (writeVarint v @ rest) = (v, int (length (writeVarint v)))"
proof -
  have "unat v < 2 ^ 64" using unsigned_less [of v] by simp
  then show ?thesis
    using Uvarint_from_PutUvarint [of 0 v rest 0]
    by (simp add: Uvarint_def writeVarint_def)
qed

lemma writeVarint_nonempty: "0 < length (writeVarint v)"
  unfolding writeVarint_def by (subst PutUvarint.simps) simp

subsection \<open>Tags\<close>

lemma tag_int:
  assumes "0 \<le> wt" "wt < 8"
  shows "(n * 8) OR wt = n * 8 + (wt :: int)"
proof -
  have t: "take_bit 3 wt = wt" using assms by (simp add: take_bit_int_eq_self)
  have "push_bit 3 n + take_bit 3 wt = push_bit 3 n OR take_bit 3 wt"
    by (rule disjunctive_add) (auto simp: bit_simps)
  then show ?thesis by (simp add: t push_bit_eq_mult)
qed

lemma uint_tag:
  assumes "0 \<le> n" "n < 2 ^ 61" "0 \<le> wt" "wt < 8"
  shows "uint (word_of_int (n * 8) OR word_of_int wt :: uint64) = n * 8 + wt"
proof -
  have a: "uint (word_of_int (n * 8) :: uint64) = n * 8"
    using assms by (simp only: uint_word_of_int_eq) (simp add: take_bit_int_eq_self)
  have b: "uint (word_of_int wt :: uint64) = wt"
    using assms by (simp add: uint_word_of_int_eq take_bit_int_eq_self)
  show ?thesis by (simp only: uint_or a b tag_int [OF assms(3,4)])
qed

lemma tag_fieldNum:
  assumes "0 \<le> n" "n < 2 ^ 61" "0 \<le> wt" "wt < 8"
  shows "sint (drop_bit 3 (word_of_int (n * 8) OR word_of_int wt :: uint64)) = n"
proof -
  let ?tag = "word_of_int (n * 8) OR word_of_int wt :: uint64"
  have "take_bit 64 (uint ?tag) = uint ?tag"
    using uint_lt2p [of ?tag] by (intro take_bit_int_eq_self) simp_all
  then have "uint (drop_bit 3 ?tag) = drop_bit 3 (uint ?tag)"
    by (simp only: unsigned_drop_bit_eq) simp
  also have "\<dots> = (n * 8 + wt) div 8" by (simp only: uint_tag [OF assms] drop_bit_eq_div) simp
  also have "\<dots> = n" using assms by simp
  finally have u: "uint (drop_bit 3 ?tag) = n" .
  have "sint (drop_bit 3 ?tag) = signed_take_bit 63 (uint (drop_bit 3 ?tag))"
    by (simp add: sint_uint)
  also have "\<dots> = n" using assms by (simp only: u) (simp add: signed_take_bit_int_eq_self)
  finally show ?thesis .
qed

lemma tag_wireType:
  assumes "0 \<le> n" "n < 2 ^ 61" "0 \<le> wt" "wt < 8"
  shows "uint ((word_of_int (n * 8) OR word_of_int wt :: uint64) AND 0x7) = wt"
proof -
  let ?tag = "word_of_int (n * 8) OR word_of_int wt :: uint64"
  have m: "(0x7 :: uint64) = mask 3" by (simp add: mask_eq_exp_minus_1)
  have "uint (?tag AND mask 3) = take_bit 3 (uint ?tag)"
    by (simp add: uint_and uint_mask_eq take_bit_eq_mask)
  also have "\<dots> = (n * 8 + wt) mod 8" by (simp only: uint_tag [OF assms] take_bit_eq_mod) simp
  also have "\<dots> = wt" using assms by simp
  finally show ?thesis by (simp only: m)
qed

subsection \<open>Fields\<close>

lemma Uvarint_writeTag:
  "Uvarint (writeTag n wt @ rest) =
     (word_of_int (n * 8) OR word_of_int wt, int (length (writeTag n wt)))"
  unfolding writeTag_def by (rule Uvarint_writeVarint)

lemma writeTag_nonempty: "0 < length (writeTag n wt)"
  unfolding writeTag_def by (rule writeVarint_nonempty)

lemma drop_add_int:
  "0 \<le> pos \<Longrightarrow> drop (nat pos) data = xs @ ys \<Longrightarrow>
   drop (nat (pos + int (length xs))) data = ys"
proof -
  assume a: "0 \<le> pos" and b: "drop (nat pos) data = xs @ ys"
  have "nat (pos + int (length xs)) = length xs + nat pos" using a by simp
  then have "drop (nat (pos + int (length xs))) data = drop (length xs) (drop (nat pos) data)"
    by (simp only: drop_drop)
  then show ?thesis by (simp add: b)
qed

lemma drop_len:
  "0 \<le> pos \<Longrightarrow> drop (nat pos) data = xs @ ys \<Longrightarrow> xs \<noteq> [] \<Longrightarrow>
   pos + int (length xs) + int (length ys) = int (length data)"
proof -
  assume a: "0 \<le> pos" and b: "drop (nat pos) data = xs @ ys" and c: "xs \<noteq> []"
  have "length (drop (nat pos) data) = length xs + length ys" by (simp add: b)
  then have "length data - nat pos = length xs + length ys" by simp
  moreover have "0 < length xs" using c by simp
  ultimately show ?thesis using a by linarith
qed

lemma decode_varint_field:
  assumes "0 \<le> pos" "drop (nat pos) data = writeVarintField n v @ rest" "0 \<le> n" "n < 2 ^ 61"
  shows "DecodeMessage_from data pos result =
           DecodeMessage_from data (pos + int (length (writeVarintField n v)))
             (addToResult result (Sprintf_d n) (VInt64 v))"
proof -
  let ?t = "writeTag n WireVarint" and ?p = "writeVarint v"
  have d0: "drop (nat pos) data = ?t @ (?p @ rest)"
    using assms(2) by (simp add: writeVarintField_def)
  have tpos: "0 < int (length ?t)" using writeTag_nonempty [of n WireVarint] by simp
  have ppos: "0 < int (length ?p)" using writeVarint_nonempty [of v] by simp
  have len: "pos + int (length ?t) + int (length (?p @ rest)) = int (length data)"
    using tpos by (intro drop_len [OF assms(1) d0]) auto
  have lt: "pos < int (length data)" using len tpos by linarith
  have s0: "slice_from data pos = Some (?t @ (?p @ rest))"
    using assms(1) lt d0 by (simp add: slice_from_def)
  have d1: "drop (nat (pos + int (length ?t))) data = ?p @ rest"
    using drop_add_int [OF assms(1) d0] .
  have s1: "slice_from data (pos + int (length ?t)) = Some (?p @ rest)"
    using assms(1) len d1 by (simp add: slice_from_def)
  have wt: "uint ((word_of_int (n * 8) OR word_of_int WireVarint :: uint64) AND 0x7) = 0"
    using tag_wireType [OF assms(3,4), of WireVarint] by (simp add: WireVarint_def)
  have fn: "sint (drop_bit 3 (word_of_int (n * 8) OR word_of_int WireVarint :: uint64)) = n"
    using tag_fieldNum [OF assms(3,4), of WireVarint] by (simp add: WireVarint_def)
  have l: "int (length (writeVarintField n v)) = int (length ?t) + int (length ?p)"
    by (simp add: writeVarintField_def)
  show ?thesis
    apply (subst DecodeMessage_from.simps)
    using lt tpos ppos
    apply (simp only: s0 Uvarint_writeTag option.case prod.case Let_def wt fn s1
        Uvarint_writeVarint l)
    apply (simp add: add.assoc)
    done
qed

lemma sint_length:
  "int k < 2 ^ 63 \<Longrightarrow> sint (of_nat k :: uint64) = int k"
proof -
  assume a: "int k < 2 ^ 63"
  have "sint (word_of_int (int k) :: uint64) = int k"
    using a by (intro sint64_of_int) simp_all
  then show ?thesis by simp
qed

lemma decode_bytes_field:
  assumes "0 \<le> pos" "drop (nat pos) data = writeBytesField n b @ rest" "0 \<le> n" "n < 2 ^ 61"
    and "int (length data) < 2 ^ 63"
  shows "DecodeMessage_from data pos result =
           (case payload_value b of
              None \<Rightarrow> Panic
            | Some v \<Rightarrow>
                DecodeMessage_from data (pos + int (length (writeBytesField n b)))
                  (addToResult result (Sprintf_d n) v))"
proof -
  let ?t = "writeTag n WireBytes" and ?p = "writeVarint (of_nat (length b))"
  have d0: "drop (nat pos) data = ?t @ (?p @ b @ rest)"
    using assms(2) by (simp add: writeBytesField_def)
  have tpos: "0 < int (length ?t)" using writeTag_nonempty [of n WireBytes] by simp
  have ppos: "0 < int (length ?p)" using writeVarint_nonempty [of "of_nat (length b)"] by simp
  have len: "pos + int (length ?t) + int (length (?p @ b @ rest)) = int (length data)"
    using tpos by (intro drop_len [OF assms(1) d0]) auto
  have lt: "pos < int (length data)" using len tpos by linarith
  have s0: "slice_from data pos = Some (?t @ (?p @ b @ rest))"
    using assms(1) lt d0 by (simp add: slice_from_def)
  let ?pos1 = "pos + int (length ?t)"
  have p1: "0 \<le> ?pos1" using assms(1) by simp
  have d1: "drop (nat ?pos1) data = ?p @ (b @ rest)"
    using drop_add_int [OF assms(1) d0] by simp
  have s1: "slice_from data ?pos1 = Some (?p @ (b @ rest))"
    using assms(1) len d1 by (simp add: slice_from_def)
  let ?pos2 = "?pos1 + int (length ?p)"
  have p2: "0 \<le> ?pos2" using assms(1) by simp
  have d2: "drop (nat ?pos2) data = b @ rest"
    using drop_add_int [OF p1 d1] .
  have bl: "int (length b) < 2 ^ 63" using len assms(1,5) by simp
  have sl: "sint (of_nat (length b) :: uint64) = int (length b)"
    using bl by (rule sint_length)
  have hi: "?pos2 + int (length b) \<le> int (length data)" using len by simp
  have ai: "add_int ?pos2 (int (length b)) = ?pos2 + int (length b)"
    using hi assms(1,5) by (intro add_int_id) simp_all
  have s2: "slice data ?pos2 (?pos2 + int (length b)) = Some b"
    using p2 hi d2 by (simp add: slice_def)
  have wt: "uint ((word_of_int (n * 8) OR word_of_int WireBytes :: uint64) AND 0x7) = 2"
    using tag_wireType [OF assms(3,4), of WireBytes] by (simp add: WireBytes_def)
  have fn: "sint (drop_bit 3 (word_of_int (n * 8) OR word_of_int WireBytes :: uint64)) = n"
    using tag_fieldNum [OF assms(3,4), of WireBytes] by (simp add: WireBytes_def)
  have l: "int (length (writeBytesField n b)) = int (length ?t) + int (length ?p) + int (length b)"
    by (simp add: writeBytesField_def)
  have step: "DecodeMessage_from data pos result =
     (case DecodeMessage_from b 0 [] of
        Panic \<Rightarrow> Panic
      | Ok nested \<Rightarrow>
          if length nested > 0
          then DecodeMessage_from data (?pos2 + int (length b))
                 (addToResult result (Sprintf_d n) (VMap nested))
          else if isLikelyString b
          then DecodeMessage_from data (?pos2 + int (length b))
                 (addToResult result (Sprintf_d n) (VString b))
          else DecodeMessage_from data (?pos2 + int (length b))
                 (addToResult result (Sprintf_d n) (VBytes b))
      | Err e \<Rightarrow>
          if isLikelyString b
          then DecodeMessage_from data (?pos2 + int (length b))
                 (addToResult result (Sprintf_d n) (VString b))
          else DecodeMessage_from data (?pos2 + int (length b))
                 (addToResult result (Sprintf_d n) (VBytes b)))"
    apply (subst DecodeMessage_from.simps)
    using lt tpos ppos hi
    apply (simp only: s0 Uvarint_writeTag option.case prod.case Let_def wt fn s1
        Uvarint_writeVarint sl ai s2)
    apply simp
    done
  show ?thesis
    unfolding step l
    by (simp add: payload_value_def DecodeMessage_def text_or_bytes_def add.assoc
        split: outcome.splits)
qed

lemma DecodeMessage_from_end:
  "pos = int (length data) \<Longrightarrow> DecodeMessage_from data pos result = Ok result"
  by (subst DecodeMessage_from.simps) simp

lemma field_bytes_nonempty: "field_bytes f \<noteq> []"
proof (cases f)
  case (VarintField n v)
  then show ?thesis using writeTag_nonempty [of n WireVarint] by (auto simp: writeVarintField_def)
next
  case (BytesField n b)
  then show ?thesis using writeTag_nonempty [of n WireBytes] by (auto simp: writeBytesField_def)
qed

text \<open>The decoder, standing before the encoder's fields, collects them one by one.\<close>

lemma DecodeMessage_from_fields:
  assumes "0 \<le> pos" "drop (nat pos) data = concat (map field_bytes fs)"
    and "pos \<le> int (length data)" "int (length data) < 2 ^ 63"
    and "\<forall>f \<in> set fs. 0 \<le> field_number f \<and> field_number f < 2 ^ 61"
  shows "DecodeMessage_from data pos result = collect result fs"
  using assms
proof (induction fs arbitrary: pos result)
  case Nil
  then have "pos = int (length data)" by simp
  then show ?case by (simp add: DecodeMessage_from_end)
next
  case (Cons f fs)
  let ?pos' = "pos + int (length (field_bytes f))"
  have d: "drop (nat pos) data = field_bytes f @ concat (map field_bytes fs)"
    using Cons.prems(2) by simp
  have d': "drop (nat ?pos') data = concat (map field_bytes fs)"
    using drop_add_int [OF Cons.prems(1) d] .
  have len: "pos + int (length (field_bytes f)) + int (length (concat (map field_bytes fs))) =
      int (length data)"
    using drop_len [OF Cons.prems(1) d field_bytes_nonempty] .
  have p': "0 \<le> ?pos'" "?pos' \<le> int (length data)"
    using Cons.prems(1) len by simp_all
  have rng: "0 \<le> field_number f" "field_number f < 2 ^ 61"
    using Cons.prems(5) by simp_all
  have ih: "\<And>r. DecodeMessage_from data ?pos' r = collect r fs"
    using Cons.IH [OF p'(1) d' p'(2) Cons.prems(4)] Cons.prems(5) by simp
  show ?case
  proof (cases f)
    case (VarintField n v)
    then show ?thesis
      using decode_varint_field [of pos data n v "concat (map field_bytes fs)" result] d rng
        Cons.prems(1) ih
      by simp
  next
    case (BytesField n b)
    then show ?thesis
      using decode_bytes_field [of pos data n b "concat (map field_bytes fs)" result] d rng
        Cons.prems(1,4) ih
      by (simp split: option.splits)
  qed
qed

theorem DecodeMessage_fields:
  assumes "int (length (concat (map field_bytes fs))) < 2 ^ 63"
    and "\<forall>f \<in> set fs. 0 \<le> field_number f \<and> field_number f < 2 ^ 61"
  shows "DecodeMessage (concat (map field_bytes fs)) = collect [] fs"
  unfolding DecodeMessage_def
  using assms by (intro DecodeMessage_from_fields) simp_all

subsection \<open>Repeated fields\<close>

lemma item_field_number: "item_field n t v = Some f \<Longrightarrow> field_number f = n"
  by (auto simp: item_field_def split: FieldType.splits val.splits)

lemma encodeTypedField_item:
  "item_field n (Type def) v = Some f \<Longrightarrow> encodeTypedField n v def = Inr (field_bytes f)"
  by (auto simp: item_field_def split: FieldType.splits val.splits)

lemma encodeItems_fields:
  "item_fields n (Type def) items = Some fs \<Longrightarrow>
   encodeItems n items def = Inr (concat (map field_bytes fs))"
proof (induction items arbitrary: fs)
  case Nil
  then show ?case by simp
next
  case (Cons v vs)
  then obtain f fs' where f: "item_field n (Type def) v = Some f"
    and fs': "item_fields n (Type def) vs = Some fs'" and e: "fs = f # fs'"
    by (auto split: option.splits)
  from Cons.IH [OF fs'] encodeTypedField_item [OF f] e show ?case
    by (simp del: encodeTypedField.simps)
qed

lemma item_fields_numbers:
  "item_fields n t items = Some fs \<Longrightarrow> \<forall>f \<in> set fs. field_number f = n"
proof (induction items arbitrary: fs)
  case Nil
  then show ?case by simp
next
  case (Cons v vs)
  then show ?case by (auto split: option.splits dest: item_field_number)
qed

lemma Encode_repeated_field:
  assumes "Atoi key = (n, False)" "map_of schema key = Some def" "Repeated def"
    and "item_fields n (Type def) items = Some fs"
  shows "Encode [(key, VSlice items)] schema = Inr (concat (map field_bytes fs))"
  using assms encodeItems_fields [OF assms(4)]
  by (simp add: Encode_def sorted_entries_def del: encodeItems.simps encodeTypedField.simps)

text \<open>What the decoder collects from three fields of one number.\<close>

lemma payload_value_not_slice: "payload_value p \<noteq> Some (VSlice xs)"
  by (auto simp: payload_value_def text_or_bytes_def split: outcome.splits if_splits)

lemma field_value_not_slice: "field_value f \<noteq> Some (VSlice xs)"
  by (cases f) (auto simp: payload_value_not_slice)

lemma collect_three:
  assumes "field_number fa = n" "field_number fb = n" "field_number fc = n"
    and "field_value fa = Some a" "field_value fb = Some b" "field_value fc = Some c"
  shows "collect [] [fa, fb, fc] = Ok [(Sprintf_d n, VSlice [a, b, c])]"
proof -
  have "\<And>xs. a \<noteq> VSlice xs" using assms(4) field_value_not_slice by metis
  then show ?thesis
    using assms by (cases a) (auto simp: addToResult_def)
qed

text \<open>
  Repeated-field accumulation: three scalar items of a repeated field are written as
  three fields of the same number, and unless the decoder panics on one of the payloads
  (\<open>field_value\<close> is \<open>None\<close>), it returns them as a sequence in the original order.
\<close>

theorem repeated_field_accumulates:
  assumes "Atoi key = (n, False)" "0 \<le> n" "n < 2 ^ 61"
    and "map_of schema key = Some def" "Repeated def"
    and "item_fields n (Type def) [x, y, z] = Some [fa, fb, fc]"
    and "field_value fa = Some a" "field_value fb = Some b" "field_value fc = Some c"
    and "int (length (field_bytes fa @ field_bytes fb @ field_bytes fc)) < 2 ^ 63"
  shows "Encode [(key, VSlice [x, y, z])] schema =
           Inr (field_bytes fa @ field_bytes fb @ field_bytes fc) \<and>
         field_number fa = n \<and> field_number fb = n \<and> field_number fc = n \<and>
         DecodeMessage (field_bytes fa @ field_bytes fb @ field_bytes fc) =
           Ok [(Sprintf_d n, VSlice [a, b, c])]"
proof -
  have nums: "field_number fa = n" "field_number fb = n" "field_number fc = n"
    using item_fields_numbers [OF assms(6)] by simp_all
  have enc: "Encode [(key, VSlice [x, y, z])] schema =
           Inr (field_bytes fa @ field_bytes fb @ field_bytes fc)"
    using Encode_repeated_field [OF assms(1,4,5,6)] by simp
  have "DecodeMessage (concat (map field_bytes [fa, fb, fc])) = collect [] [fa, fb, fc]"
    using assms(2,3,10) nums by (intro DecodeMessage_fields) simp_all
  then have dec: "DecodeMessage (field_bytes fa @ field_bytes fb @ field_bytes fc) =
           Ok [(Sprintf_d n, VSlice [a, b, c])]"
    using collect_three [OF nums assms(7,8,9)] by simp
  from enc nums dec show ?thesis by simp
qed

subsection \<open>Whole messages\<close>

lemma encodeAutoField_field:
  "auto_field n v = Some f \<Longrightarrow> encodeAutoField n v = Inr (field_bytes f)"
  by (auto simp: auto_field_def split: val.splits)

lemma encodeEntries_fields:
  "entries_fields schema es = Some fs \<Longrightarrow>
   encodeEntries es schema = Inr (concat (map field_bytes fs))"
proof (induction es arbitrary: fs)
  case Nil
  then show ?case by simp
next
  case (Cons kv rest)
  obtain key v where kv: "kv = (key, v)" by (cases kv)
  from Cons.prems obtain fs1 fs2 where
    1: "entry_fields schema kv = Some fs1" and
    2: "entries_fields schema rest = Some fs2" and 3: "fs = fs1 @ fs2"
    by (auto split: option.splits)
  from 1 kv obtain n where a: "Atoi key = (n, False)"
    by (cases "Atoi key") (auto simp: entry_fields_def split: bool.splits)
  have ih: "encodeEntries rest schema = Inr (concat (map field_bytes fs2))"
    using Cons.IH [OF 2] .
  have here: "(case map_of schema key of
                   None \<Rightarrow> encodeAutoField n v
                 | Some fieldDef \<Rightarrow>
                     if Repeated fieldDef then
                       (case v of
                          VSlice items \<Rightarrow> encodeItems n items fieldDef
                        | _ \<Rightarrow> encodeItems n [v] fieldDef)
                     else encodeTypedField n v fieldDef) = Inr (concat (map field_bytes fs1))"
  proof (cases "map_of schema key")
    case None
    with 1 kv a obtain f where "auto_field n v = Some f" "fs1 = [f]"
      by (auto simp: entry_fields_def)
    with None show ?thesis by (simp add: encodeAutoField_field del: encodeAutoField.simps)
  next
    case (Some d)
    show ?thesis
    proof (cases "Repeated d")
      case True
      show ?thesis
      proof (cases "\<exists>items. v = VSlice items")
        case True
        then obtain items where vs: "v = VSlice items" by blast
        with 1 kv a Some \<open>Repeated d\<close> have "item_fields n (Type d) items = Some fs1"
          by (simp add: entry_fields_def)
        with Some \<open>Repeated d\<close> vs show ?thesis
          by (simp add: encodeItems_fields del: encodeItems.simps)
      next
        case False
        with 1 kv a Some \<open>Repeated d\<close> have "item_fields n (Type d) [v] = Some fs1"
          by (cases v) (simp_all add: entry_fields_def)
        then have "encodeItems n [v] d = Inr (concat (map field_bytes fs1))"
          by (rule encodeItems_fields)
        with Some \<open>Repeated d\<close> False show ?thesis
          by (cases v) (simp_all del: encodeItems.simps)
      qed
    next
      case False
      with 1 kv a Some obtain f where "item_field n (Type d) v = Some f" "fs1 = [f]"
        by (auto simp: entry_fields_def)
      with Some False show ?thesis
        by (simp add: encodeTypedField_item del: encodeTypedField.simps)
    qed
  qed
  show ?case
    unfolding kv encodeEntries.simps
    by (simp only: a prod.case bool.case here ih sum.case 3) simp
qed

text \<open>
  Encoding and then decoding a message of scalars: the decoder collects the fields that
  the encoder has written for the entries in the order of their numbers.
\<close>

theorem Encode_then_DecodeMessage:
  assumes "entries_fields schema (sorted_entries m) = Some fs"
    and "\<forall>f \<in> set fs. 0 \<le> field_number f \<and> field_number f < 2 ^ 61"
    and "int (length (concat (map field_bytes fs))) < 2 ^ 63"
  shows "Encode m schema = Inr (concat (map field_bytes fs)) \<and>
         DecodeMessage (concat (map field_bytes fs)) = collect [] fs"
  using encodeEntries_fields [OF assms(1)] DecodeMessage_fields [OF assms(3,2)]
  by (simp add: Encode_def)

subsection \<open>Keys\<close>

lemma of_char_digit_char:
  "0 \<le> d \<Longrightarrow> d < 10 \<Longrightarrow> (of_char (digit_char d) :: int) = 48 + d"
  by (simp add: digit_char_def)

lemma is_digit_digit_char: "0 \<le> d \<Longrightarrow> d < 10 \<Longrightarrow> is_digit (digit_char d)"
  by (simp add: is_digit_def of_char_digit_char)

lemma digits_value_snoc:
  "digits_value (ds @ [c]) = digits_value ds * 10 + (of_char c - 48)"
  by (simp add: digits_value_def)

lemma decimal_props:
  "0 \<le> n \<Longrightarrow>
   decimal n \<noteq> [] \<and> list_all is_digit (decimal n) \<and> digits_value (decimal n) = n"
proof (induction n rule: decimal.induct)
  case (1 n)
  show ?case
  proof (cases "n < 10")
    case True
    then have d: "decimal n = [digit_char n]" by (subst decimal.simps) simp
    show ?thesis
      using True "1.prems"
      by (simp add: d is_digit_digit_char digits_value_def of_char_digit_char)
  next
    case False
    then have d: "decimal n = decimal (n div 10) @ [digit_char (n mod 10)]"
      by (subst decimal.simps) simp
    have ih: "decimal (n div 10) \<noteq> [] \<and> list_all is_digit (decimal (n div 10)) \<and>
        digits_value (decimal (n div 10)) = n div 10"
      using "1.IH" [OF False] "1.prems" by simp
    have m: "0 \<le> n mod 10" "n mod 10 < 10" by simp_all
    show ?thesis
      using ih by (simp add: d digits_value_snoc is_digit_digit_char [OF m] of_char_digit_char [OF m])
  qed
qed


lemma Atoi_digits:
  assumes "ds \<noteq> []" "list_all is_digit ds" "hd ds \<noteq> CHR ''-''" "hd ds \<noteq> CHR ''+''"
    and "digits_value ds < 2 ^ 63"
  shows "Atoi ds = (digits_value ds, False)"
proof -
  have "\<not> (ds \<noteq> [] \<and> hd ds = CHR ''-'')" using assms(3) by simp
  moreover have "(if ds \<noteq> [] \<and> (hd ds = CHR ''-'' \<or> hd ds = CHR ''+'') then tl ds else ds) = ds"
    using assms(3,4) by simp
  ultimately show ?thesis
    unfolding Atoi_def Let_def using assms(1,2,5) by (simp only: if_False) simp
qed

lemma Atoi_Sprintf_d:
  assumes "0 \<le> n" "n < 2 ^ 63"
  shows "Atoi (Sprintf_d n) = (n, False)"
proof -
  from decimal_props [OF assms(1)] have
    ne: "decimal n \<noteq> []" and dg: "list_all is_digit (decimal n)" and
    dv: "digits_value (decimal n) = n"
    by simp_all
  from ne dg have "is_digit (hd (decimal n))" by (cases "decimal n") simp_all
  then have h: "hd (decimal n) \<noteq> CHR ''-''" "hd (decimal n) \<noteq> CHR ''+''"
    by (auto simp: is_digit_def)
  have s: "Sprintf_d n = decimal n" using assms(1) by (simp add: Sprintf_d_def)
  have "digits_value (decimal n) < 2 ^ 63" using assms(2) by (simp only: dv)
  from Atoi_digits [OF ne dg h this] show ?thesis by (simp only: s dv)
qed

lemma Sprintf_d_inj:
  assumes "0 \<le> a" "a < 2 ^ 63" "0 \<le> b" "b < 2 ^ 63" "Sprintf_d a = Sprintf_d b"
  shows "a = b"
proof -
  have "fst (Atoi (Sprintf_d a)) = fst (Atoi (Sprintf_d b))" by (simp only: assms(5))
  then show ?thesis
    by (simp only: Atoi_Sprintf_d [OF assms(1,2)] Atoi_Sprintf_d [OF assms(3,4)] fst_conv)
qed

subsection \<open>Messages of scalars\<close>

lemma item_fields_numbers_fst:
  "item_fields n t items = Some fs \<Longrightarrow> f \<in> set fs \<Longrightarrow> field_number f = n"
  using item_fields_numbers by blast

lemma auto_field_number: "auto_field n v = Some f \<Longrightarrow> field_number f = n"
  by (auto simp: auto_field_def split: val.splits)

lemma entry_fields_numbers:
  assumes "entry_fields schema kv = Some fs" "f \<in> set fs"
  shows "Atoi (fst kv) = (field_number f, False)"
proof -
  obtain n e where a: "Atoi (fst kv) = (n, e)" by (cases "Atoi (fst kv)")
  with assms(1) have e: "e = False" by (cases e) (simp_all add: entry_fields_def)
  have "field_number f = n"
  proof (cases "map_of schema (fst kv)")
    case None
    with assms a e show ?thesis
      by (auto simp: entry_fields_def dest: auto_field_number)
  next
    case (Some d)
    show ?thesis
    proof (cases "Repeated d")
      case True
      with assms a e Some show ?thesis
        by (cases "snd kv") (auto simp: entry_fields_def dest: item_fields_numbers_fst item_field_number split: option.splits)
    next
      case False
      with assms a e Some show ?thesis
        by (auto simp: entry_fields_def dest: item_field_number)
    qed
  qed
  with a e show ?thesis by simp
qed

lemma addToResult_fresh:
  "map_of r k = None \<Longrightarrow> addToResult r k v = r @ [(k, v)]"
proof -
  assume a: "map_of r k = None"
  have "k \<notin> fst ` set r \<Longrightarrow> map_set r k v = r @ [(k, v)]"
    by (induction r) auto
  with a have m: "map_set r k v = r @ [(k, v)]" by (simp add: map_of_eq_None_iff)
  show ?thesis unfolding addToResult_def by (simp only: a option.case m)
qed

lemma collect_distinct:
  assumes "distinct (map field_key fs)" "\<forall>f \<in> set fs. field_key f \<notin> fst ` set r"
    and "\<forall>f \<in> set fs. field_value f \<noteq> None"
  shows "collect r fs = Ok (r @ map (\<lambda>f. (field_key f, the (field_value f))) fs)"
  using assms
proof (induction fs arbitrary: r)
  case Nil
  then show ?case by simp
next
  case (Cons f fs)
  from Cons.prems(3) obtain v where v: "field_value f = Some v" by auto
  have fresh: "map_of r (field_key f) = None"
    using Cons.prems(2) by (simp add: map_of_eq_None_iff)
  have step: "addToResult r (Sprintf_d (field_number f)) v = r @ [(field_key f, v)]"
    using addToResult_fresh [OF fresh] by (simp add: field_key_def)
  have d: "distinct (map field_key fs)" using Cons.prems(1) by simp
  have n: "\<forall>f' \<in> set fs. field_key f' \<noteq> field_key f"
    using Cons.prems(1) by (auto simp: image_iff)
  have fr: "\<forall>f' \<in> set fs. field_key f' \<notin> fst ` set (r @ [(field_key f, v)])"
    using Cons.prems(2) n by auto
  have sm: "\<forall>f' \<in> set fs. field_value f' \<noteq> None" using Cons.prems(3) by simp
  have "collect (r @ [(field_key f, v)]) fs =
          Ok ((r @ [(field_key f, v)]) @ map (\<lambda>f. (field_key f, the (field_value f))) fs)"
    using d fr sm by (rule Cons.IH)
  then show ?case by (simp add: v step)
qed

lemma distinct_map_insort_key:
  "distinct (map g (insort_key f x xs)) = (g x \<notin> g ` set xs \<and> distinct (map g xs))"
  by (induction xs) (auto simp: set_insort_key)

lemma distinct_map_sort_key:
  "distinct (map g (sort_key f xs)) = distinct (map g xs)"
  by (induction xs) (simp_all add: distinct_map_insort_key)

lemma map_of_sorted_entries:
  "distinct (map fst m) \<Longrightarrow> map_of (sorted_entries m) = map_of m"
  unfolding sorted_entries_def
  by (intro map_of_inject_set [THEN iffD2]) (simp_all add: distinct_map_sort_key)

lemma map_of_map_snd:
  "distinct (map fst es) \<Longrightarrow>
   map_of (map (\<lambda>kv. (fst kv, h kv)) es) k =
     (case map_of es k of None \<Rightarrow> None | Some v \<Rightarrow> Some (h (k, v)))"
proof (induction es)
  case Nil
  then show ?case by simp
next
  case (Cons e es)
  then show ?case by (cases e) (auto split: option.splits)
qed

lemma entries_fields_single:
  assumes "\<forall>kv \<in> set es. entry_value schema kv \<noteq> None"
  shows "entries_fields schema es = Some (map (\<lambda>kv. hd (the (entry_fields schema kv))) es) \<and>
         (\<forall>kv \<in> set es. entry_fields schema kv = Some [hd (the (entry_fields schema kv))] \<and>
             field_value (hd (the (entry_fields schema kv))) = entry_value schema kv)"
  using assms
proof (induction es)
  case Nil
  then show ?case by simp
next
  case (Cons e es)
  from Cons.prems have "entry_value schema e \<noteq> None" by simp
  then obtain f where f: "entry_fields schema e = Some [f]"
    by (auto simp: entry_value_def split: option.splits list.splits)
  then have v: "field_value f = entry_value schema e" by (simp add: entry_value_def)
  from Cons.IH Cons.prems f v show ?case by simp
qed

text \<open>
  The round trip of a message of scalars. The keys are the decimal renderings of distinct
  field numbers below \<open>2^61\<close>; every value fits its definition in the schema (or, without
  one, is of a type that the encoder detects) and the decoder does not panic on its
  payload, which is what \<open>entry_value\<close> being defined says. Then the message encodes, the
  output decodes, and the decoded mapping has the same keys, each with the decoder's
  reading of the value.
\<close>

theorem round_trip_of_scalars:
  assumes "distinct (map fst m)"
    and "\<forall>kv \<in> set m. \<exists>n. 0 \<le> n \<and> n < 2 ^ 61 \<and> fst kv = Sprintf_d n"
    and "\<forall>kv \<in> set m. entry_value schema kv \<noteq> None"
    and "\<forall>bytes. Encode m schema = Inr bytes \<longrightarrow> int (length bytes) < 2 ^ 63"
  shows "\<exists>bytes r. Encode m schema = Inr bytes \<and> DecodeMessage bytes = Ok r \<and>
           (\<forall>k. map_of r k =
              (case map_of m k of None \<Rightarrow> None | Some v \<Rightarrow> entry_value schema (k, v)))"
proof -
  let ?es = "sorted_entries m"
  let ?g = "\<lambda>kv. hd (the (entry_fields schema kv))"
  let ?fs = "map ?g ?es"
  have set_es: "set ?es = set m" by (simp add: sorted_entries_def)
  have dist_es: "distinct (map fst ?es)"
    using assms(1) by (simp add: sorted_entries_def distinct_map_sort_key)
  have vals: "\<forall>kv \<in> set ?es. entry_value schema kv \<noteq> None"
    using assms(3) set_es by simp
  from entries_fields_single [OF vals] have
    ef: "entries_fields schema ?es = Some ?fs" and
    single: "\<forall>kv \<in> set ?es. entry_fields schema kv = Some [?g kv] \<and>
               field_value (?g kv) = entry_value schema kv"
    by simp_all
  have key: "\<forall>kv \<in> set ?es. field_key (?g kv) = fst kv \<and>
                0 \<le> field_number (?g kv) \<and> field_number (?g kv) < 2 ^ 61"
  proof
    fix kv assume kv: "kv \<in> set ?es"
    with assms(2) set_es obtain n where
      n: "0 \<le> n" "n < 2 ^ 61" "fst kv = Sprintf_d n" by blast
    from single kv have "entry_fields schema kv = Some [?g kv]" by blast
    then have "Atoi (fst kv) = (field_number (?g kv), False)"
      by (rule entry_fields_numbers) simp
    moreover have "Atoi (fst kv) = (n, False)"
      using n by (simp only: n(3)) (intro Atoi_Sprintf_d, simp_all)
    ultimately have "field_number (?g kv) = n" by simp
    with n show "field_key (?g kv) = fst kv \<and>
                0 \<le> field_number (?g kv) \<and> field_number (?g kv) < 2 ^ 61"
      by (simp add: field_key_def)
  qed
  have keys: "map field_key ?fs = map fst ?es"
    using key by (simp add: comp_def)
  have rng: "\<forall>f \<in> set ?fs. 0 \<le> field_number f \<and> field_number f < 2 ^ 61"
    using key by auto
  have enc: "Encode m schema = Inr (concat (map field_bytes ?fs))"
    using encodeEntries_fields [OF ef] by (simp add: Encode_def)
  then have len: "int (length (concat (map field_bytes ?fs))) < 2 ^ 63"
    using assms(4) by blast
  have dec: "DecodeMessage (concat (map field_bytes ?fs)) = collect [] ?fs"
    using DecodeMessage_fields [OF len rng] .
  have some: "\<forall>f \<in> set ?fs. field_value f \<noteq> None"
    using single vals by auto
  have d1: "distinct (map field_key ?fs)" by (simp only: keys dist_es)
  have d2: "\<forall>f \<in> set ?fs. field_key f \<notin> fst ` set ([] :: message)" by simp
  have "collect [] ?fs = Ok ([] @ map (\<lambda>f. (field_key f, the (field_value f))) ?fs)"
    using d1 d2 some by (rule collect_distinct)
  also have "map (\<lambda>f. (field_key f, the (field_value f))) ?fs =
             map (\<lambda>kv. (fst kv, the (entry_value schema kv))) ?es"
    using key single by (simp add: comp_def)
  finally have col: "collect [] ?fs = Ok (map (\<lambda>kv. (fst kv, the (entry_value schema kv))) ?es)"
    by simp
  have look: "\<And>k. map_of (map (\<lambda>kv. (fst kv, the (entry_value schema kv))) ?es) k =
      (case map_of m k of None \<Rightarrow> None | Some v \<Rightarrow> entry_value schema (k, v))"
  proof -
    fix k
    have "map_of (map (\<lambda>kv. (fst kv, the (entry_value schema kv))) ?es) k =
      (case map_of ?es k of None \<Rightarrow> None | Some v \<Rightarrow> Some (the (entry_value schema (k, v))))"
      using dist_es by (rule map_of_map_snd)
    also have "\<dots> = (case map_of m k of None \<Rightarrow> None
                     | Some v \<Rightarrow> Some (the (entry_value schema (k, v))))"
      by (simp only: map_of_sorted_entries [OF assms(1)])
    also have "\<dots> = (case map_of m k of None \<Rightarrow> None | Some v \<Rightarrow> entry_value schema (k, v))"
    proof (cases "map_of m k")
      case None
      then show ?thesis by simp
    next
      case (Some v)
      then have "(k, v) \<in> set m" by (rule map_of_SomeD)
      with assms(3) have "entry_value schema (k, v) \<noteq> None" by blast
      with Some show ?thesis by auto
    qed
    finally show "map_of (map (\<lambda>kv. (fst kv, the (entry_value schema kv))) ?es) k =
      (case map_of m k of None \<Rightarrow> None | Some v \<Rightarrow> entry_value schema (k, v))" .
  qed
  from enc dec col look show ?thesis by auto
qed

section \<open>Properties of the credential exchange client and the token endpoint\<close>



text \<open>
  C10. \<open>FetchServiceToken\<close> returns the no-master-token error whenever the stored master
  token is empty or the stored account email is empty, and sends no request then.
\<close>

theorem FetchServiceToken_needs_token_and_email:
  assumes "MasterToken cfg = [] \<or> Email cfg = []"
  shows "FetchServiceToken net cfg scope appPackage appSig = ((None, Some NoMasterToken), [])"
  using assms by (auto simp: FetchServiceToken_def HasMasterToken_def)

theorem FetchServiceToken_needs_token_and_email_witness:
  "MasterToken (DefaultConfig\<lparr>MasterToken := ''aas_et/m''\<rparr>) \<noteq> [] \<and>
   Email (DefaultConfig\<lparr>MasterToken := ''aas_et/m''\<rparr>) = [] \<and>
   FetchServiceToken (always (Reply 200 [] (Body ''Auth=ya29.t'')))
     (DefaultConfig\<lparr>MasterToken := ''aas_et/m''\<rparr>)
     ''ac2dm'' ''com.google.android.gms'' GoogleSig = ((None, Some NoMasterToken), [])"
proof -
  have h: "MasterToken (DefaultConfig\<lparr>MasterToken := ''aas_et/m''\<rparr>) = [] \<or>
    Email (DefaultConfig\<lparr>MasterToken := ''aas_et/m''\<rparr>) = []"
    by (simp add: DefaultConfig_def)
  have "MasterToken (DefaultConfig\<lparr>MasterToken := ''aas_et/m''\<rparr>) \<noteq> [] \<and>
    Email (DefaultConfig\<lparr>MasterToken := ''aas_et/m''\<rparr>) = []"
    by (simp add: DefaultConfig_def)
  with FetchServiceToken_needs_token_and_email [OF h] show ?thesis by blast
qed

lemma FetchServiceToken_sends_when_logged_in:
  assumes "MasterToken cfg \<noteq> []" "Email cfg \<noteq> []"
  shows "length (snd (FetchServiceToken net cfg scope appPackage appSig)) = 1"
  using assms by (simp add: FetchServiceToken_def HasMasterToken_def doAuthRequest_def Let_def)

text \<open>
  C6, as stated, fails: the token that is exactly the prefix \<open>aas_et/\<close> classifies as
  \<open>unknown\<close>, because the handler asks for a length greater than that of the prefix.
\<close>

theorem bare_prefix_is_unknown:
  "HasPrefix ''aas_et/'' ''aas_et/'' \<and> tokenType ''aas_et/'' = ''unknown''"
  by (simp add: HasPrefix_def tokenType_def)

text \<open>
  C6, amended. The token type is a function of the literal prefix of the token, for
  tokens longer than the prefix: \<open>aas_et/\<close> followed by at least one character is \<open>aes\<close>,
  \<open>ya29.\<close> followed by at least one character is \<open>oauth2\<close>, and every other string (the
  two bare prefixes and strings that contain a prefix elsewhere included) is \<open>unknown\<close>.
  A 200 answer of the endpoint carries the type of the token it carries.
\<close>

theorem tokenType_by_prefix:
  "(rest \<noteq> [] \<longrightarrow> tokenType (''aas_et/'' @ rest) = ''aes'') \<and>
   (rest \<noteq> [] \<longrightarrow> tokenType (''ya29.'' @ rest) = ''oauth2'') \<and>
   ((\<forall>r. r \<noteq> [] \<longrightarrow> t \<noteq> ''aas_et/'' @ r) \<and> (\<forall>r. r \<noteq> [] \<longrightarrow> t \<noteq> ''ya29.'' @ r)
      \<longrightarrow> tokenType t = ''unknown'') \<and>
   (token_handler net cfg r = (Some (200, out), sent) \<longrightarrow>
      tr_TokenType out = tokenType (tr_Token out))"
proof (intro conjI impI)
  assume "rest \<noteq> []"
  then show "tokenType (''aas_et/'' @ rest) = ''aes''"
    by (simp add: tokenType_def)
next
  assume "rest \<noteq> []"
  then show "tokenType (''ya29.'' @ rest) = ''oauth2''"
    by (simp add: tokenType_def)
next
  assume a: "(\<forall>r. r \<noteq> [] \<longrightarrow> t \<noteq> ''aas_et/'' @ r) \<and> (\<forall>r. r \<noteq> [] \<longrightarrow> t \<noteq> ''ya29.'' @ r)"
  have 1: "\<not> (length t > 7 \<and> take 7 t = ''aas_et/'')"
  proof
    assume b: "length t > 7 \<and> take 7 t = ''aas_et/''"
    then have "t = ''aas_et/'' @ drop 7 t" by (metis append_take_drop_id)
    moreover from b have "drop 7 t \<noteq> []" by simp
    ultimately show False using a by blast
  qed
  have 2: "\<not> (length t > 5 \<and> take 5 t = ''ya29.'')"
  proof
    assume b: "length t > 5 \<and> take 5 t = ''ya29.''"
    then have "t = ''ya29.'' @ drop 5 t" by (metis append_take_drop_id)
    moreover from b have "drop 5 t \<noteq> []" by simp
    ultimately show False using a by blast
  qed
  from 1 2 show "tokenType t = ''unknown''"
    unfolding tokenType_def by (simp only: if_False)
next
  assume "token_handler net cfg r = (Some (200, out), sent)"
  then show "tr_TokenType out = tokenType (tr_Token out)"
    by (auto simp: token_handler_def token_reply_def Let_def error_response_def
        split: if_splits sum.splits option.splits prod.splits)
qed

theorem tokenType_by_prefix_witness:
  "tokenType ''aas_et/AKpp'' = ''aes'' \<and> tokenType ''ya29.a0Af'' = ''oauth2'' \<and>
   tokenType ''xaas_et/AKpp'' = ''unknown'' \<and>
   tr_TokenType (snd (the (fst (token_handler (always (Reply 200 [] (Body ''Auth=ya29.a0Af'')))
      stored_config photos_request)))) = ''oauth2''"
proof -
  let ?x = "token_handler (always (Reply 200 [] (Body ''Auth=ya29.a0Af''))) stored_config
              photos_request"
  have n: "\<forall>r. r \<noteq> [] \<longrightarrow> ''xaas_et/AKpp'' \<noteq> ''aas_et/'' @ r"
          "\<forall>r. r \<noteq> [] \<longrightarrow> ''xaas_et/AKpp'' \<noteq> ''ya29.'' @ r"
    by simp_all
  have e: "?x = (Some (200, snd (the (fst ?x))), snd ?x)" by code_simp
  have t: "tr_Token (snd (the (fst ?x))) = ''ya29.a0Af''" by code_simp
  have a: "tokenType (''aas_et/'' @ ''AKpp'') = ''aes''"
    using tokenType_by_prefix [of "''AKpp''" t net cfg r out sent] by simp
  have b: "tokenType (''ya29.'' @ ''a0Af'') = ''oauth2''"
    using tokenType_by_prefix [of "''a0Af''" t net cfg r out sent] by simp
  have c: "tokenType ''xaas_et/AKpp'' = ''unknown''"
    using tokenType_by_prefix [of rest "''xaas_et/AKpp''" net cfg r out sent] n by blast
  have d: "tr_TokenType (snd (the (fst ?x))) = tokenType (tr_Token (snd (the (fst ?x))))"
    using tokenType_by_prefix [of rest t "always (Reply 200 [] (Body ''Auth=ya29.a0Af''))"
        stored_config photos_request "snd (the (fst ?x))" "snd ?x"] e by blast
  from a b c d t show ?thesis by simp
qed











section \<open>Properties of the device registration client\<close>






section \<open>Properties of the interception proxy\<close>

text \<open>
  C8. If the exchange dispatched on capture fails (the request fails, the status is not 200,
  the body cannot be read, or the response carries neither \<open>Token\<close> nor \<open>Auth\<close>), then
  \<open>exchangeToken\<close> leaves the configuration in memory and the file as they were, the
  master token and the email with them, and changes only the result fields of the capture
  state: the email becomes empty and the error is set.
\<close>

theorem failed_exchange_keeps_credentials:
  assumes "snd (fst (ExchangeOAuthForMaster net cfg oauthTok)) \<noteq> None \<or>
           (\<exists>resp. fst (ExchangeOAuthForMaster net cfg oauthTok) = (Some resp, None) \<and>
                   Token resp = [] \<and> Auth resp = [])"
    and "exchangeToken net write_err cfg d st oauthTok = ((cfg', d', st'), sent)"
  shows "cfg' = cfg \<and> d' = d \<and> MasterToken cfg' = MasterToken cfg \<and> Email cfg' = Email cfg \<and>
         (\<exists>msg. st' = st\<lparr>email := [], error := msg\<rparr>)"
  using assms
  by (auto simp: exchangeToken_def SetResult_def Let_def split: prod.splits option.splits if_splits)

text \<open>The failures of the claim are failures in the sense of the hypothesis.\<close>

lemma non_200_is_an_error:
  assumes "\<forall>req. net req = Reply status raw content" "status \<noteq> 200"
  shows "snd (fst (ExchangeOAuthForMaster net cfg oauthTok)) \<noteq> None"
  using assms
  by (auto simp: ExchangeOAuthForMaster_def doAuthRequest_def Let_def split: body_read.splits)

lemma request_error_is_an_error:
  assumes "\<forall>req. net req = DoFailed e"
  shows "snd (fst (ExchangeOAuthForMaster net cfg oauthTok)) \<noteq> None"
  using assms by (auto simp: ExchangeOAuthForMaster_def doAuthRequest_def Let_def)

text \<open>When the exchange succeeds and saving fails, the file is as it was.\<close>

lemma failed_save_keeps_file:
  "exchangeToken net (Some e) cfg d st oauthTok = ((cfg', d', st'), sent) \<Longrightarrow> d' = d"
  by (auto simp: exchangeToken_def Save_def Let_def split: prod.splits option.splits if_splits)

theorem failed_exchange_keeps_credentials_witness:
  "fst (exchangeToken (always (Reply 403 [] (Body ''Error=BadAuthentication''))) None stored_config
     (Some stored_config) (SetToken NewProxyState ''oauth2_4/x'') ''oauth2_4/x'') =
   (stored_config, Some stored_config,
     (SetToken NewProxyState ''oauth2_4/x'')
       \<lparr>email := [], error := ''auth failed: status 403: BadAuthentication''\<rparr>)"
proof -
  let ?net = "always (Reply 403 [] (Body ''Error=BadAuthentication'')) :: auth_net"
  let ?st = "SetToken NewProxyState ''oauth2_4/x''"
  let ?x = "exchangeToken ?net None stored_config (Some stored_config) ?st ''oauth2_4/x''"
  have h: "snd (fst (ExchangeOAuthForMaster ?net stored_config ''oauth2_4/x'')) \<noteq> None \<or>
           (\<exists>resp. fst (ExchangeOAuthForMaster ?net stored_config ''oauth2_4/x'') =
                     (Some resp, None) \<and> Token resp = [] \<and> Auth resp = [])"
    by (simp add: ExchangeOAuthForMaster_def doAuthRequest_def Let_def always_def)
  have e: "?x = ((fst (fst ?x), fst (snd (fst ?x)), snd (snd (fst ?x))), snd ?x)" by simp
  have k: "fst (fst ?x) = stored_config \<and> fst (snd (fst ?x)) = Some stored_config"
    using failed_exchange_keeps_credentials [OF h e] by simp
  have s: "snd (snd (fst ?x)) =
      ?st\<lparr>email := [], error := ''auth failed: status 403: BadAuthentication''\<rparr>"
    by code_simp
  from k s show ?thesis by (metis prod.collapse)
qed

text \<open>
  C2. The capture is not first-writer-wins: the test \<open>IsCaptured\<close> and the write
  \<open>SetToken\<close> take the mutex separately. Two handlers whose responses carry the cookie,
  scheduled so that both test before either writes, both capture: two exchanges are
  dispatched and the token of the second overwrites that of the first.
\<close>

theorem racing_handlers_both_capture:
  "dispatched (run (start [[''oauth_token=A; Path=/; HttpOnly''],
                            [''oauth_token=B; Path=/; HttpOnly'']])
                 [0, 1, 0, 1, 0, 1]) = [''A'', ''B''] \<and>
   oauthToken (state (run (start [[''oauth_token=A; Path=/; HttpOnly''],
                                   [''oauth_token=B; Path=/; HttpOnly'']])
                 [0, 1, 0, 1, 0, 1])) = ''B'' \<and>
   finished (run (start [[''oauth_token=A; Path=/; HttpOnly''],
                          [''oauth_token=B; Path=/; HttpOnly'']])
                 [0, 1, 0, 1, 0, 1])"
  by code_simp

text \<open>When the first handler finishes before the second starts, there is one capture.\<close>

lemma sequential_handlers_capture_once:
  "dispatched (run (start [[''oauth_token=A; Path=/; HttpOnly''],
                            [''oauth_token=B; Path=/; HttpOnly'']])
                 [0, 0, 0, 1, 1, 1]) = [''A'']"
  by code_simp

section \<open>Properties of the codec as a whole\<close>

text \<open>
  C1. The round trip holds wherever the decoder does not panic (theorem
  \<open>round_trip_of_scalars\<close>), but it fails on a byte payload whose own bytes read as a
  tag of wire type 2 followed by a length of \<open>2^63\<close> or more: the message encodes, and
  the decoder, trying the payload as a nested message, panics. Here field 1 holds the
  eleven bytes on which the decoder panics when they are the whole input.
\<close>

theorem round_trip_panics_on_bytes_payload:
  "Encode [(''1'', VBytes [0x0A, 0xFF, 0xFF, 0xFF, 0xFF, 0xFF, 0xFF, 0xFF, 0xFF, 0xFF, 0x01])]
          [(''1'', FieldDef TypeBytes False None)] =
     Inr [0x0A, 0x0B, 0x0A, 0xFF, 0xFF, 0xFF, 0xFF, 0xFF, 0xFF, 0xFF, 0xFF, 0xFF, 0x01] \<and>
   DecodeMessage [0x0A, 0x0B, 0x0A, 0xFF, 0xFF, 0xFF, 0xFF, 0xFF, 0xFF, 0xFF, 0xFF, 0xFF, 0x01] =
     Panic"
  by code_simp

text \<open>
  C7. Three items of a repeated field are written as three fields and come back as a
  sequence in their order wherever the decoder does not panic (theorem
  \<open>repeated_field_accumulates\<close>). Here a repeated bytes field with three values encodes
  as three tag and payload pairs of field 1; the decoder panics on the second of them,
  where \<open>pos+int(length)\<close> overflows, and yields no sequence.
\<close>

theorem repeated_field_panics_on_bytes_item:
  "Encode [(''1'', VSlice [VBytes [0x61], VBytes [0x12, 0xFF, 0xFF, 0xFF, 0xFF, 0xFF, 0xFF, 0xFF,
                                           0xFF, 0x7F], VBytes [0x63]])]
          [(''1'', FieldDef TypeBytes True None)] =
     Inr ([0x0A, 0x01, 0x61] @
          [0x0A, 0x0A, 0x12, 0xFF, 0xFF, 0xFF, 0xFF, 0xFF, 0xFF, 0xFF, 0xFF, 0x7F] @
          [0x0A, 0x01, 0x63]) \<and>
   DecodeMessage ([0x0A, 0x01, 0x61] @
          [0x0A, 0x0A, 0x12, 0xFF, 0xFF, 0xFF, 0xFF, 0xFF, 0xFF, 0xFF, 0xFF, 0x7F] @
          [0x0A, 0x01, 0x63]) = Panic"
  by code_simp

text \<open>With three integers the same field decodes to the sequence, in order.\<close>

lemma repeated_int_field_example:
  "Encode [(''1'', VSlice [VInt64 1, VInt64 2, VInt64 300])] [(''1'', FieldDef TypeInt True None)] =
     Inr [0x08, 0x01, 0x08, 0x02, 0x08, 0xAC, 0x02] \<and>
   DecodeMessage [0x08, 0x01, 0x08, 0x02, 0x08, 0xAC, 0x02] =
     Ok [(''1'', VSlice [VInt64 1, VInt64 2, VInt64 300])]"
  by code_simp

text \<open>A message of three scalars, one under a schema entry, and its round trip.\<close>

lemma round_trip_example:
  "Encode [(''2'', VString [0x61, 0x62, 0x63]), (''1'', VInt (- 1)), (''3'', VBool True)]
          [(''3'', FieldDef TypeBool False None)] =
     Inr [0x08, 0xFF, 0xFF, 0xFF, 0xFF, 0xFF, 0xFF, 0xFF, 0xFF, 0xFF, 0x01,
          0x12, 0x03, 0x61, 0x62, 0x63, 0x18, 0x01] \<and>
   DecodeMessage [0x08, 0xFF, 0xFF, 0xFF, 0xFF, 0xFF, 0xFF, 0xFF, 0xFF, 0xFF, 0x01,
          0x12, 0x03, 0x61, 0x62, 0x63, 0x18, 0x01] =
     Ok [(''1'', VInt64 (- 1)), (''2'', VString [0x61, 0x62, 0x63]), (''3'', VInt64 1)]"
  by code_simp

text \<open>
  The known ambiguity of the decoder: the text \<open>hi\<close> reads as a nested message with the
  varint field 13.
\<close>

lemma misclassified_text_example:
  "Encode [(''1'', VString [0x68, 0x69])] [(''1'', FieldDef TypeString False None)] =
     Inr [0x0A, 0x02, 0x68, 0x69] \<and>
   DecodeMessage [0x0A, 0x02, 0x68, 0x69] = Ok [(''1'', VMap [(''13'', VInt64 105)])]"
  by code_simp

end
